theory Spec2Isabelle
  imports Main "HOL-Library.Word" "HOL-Library.AList" "HOL-Library.Multiset"
begin

text \<open>
  The load test writes events with the values 0, 1, 2, \<dots> to several nodes from concurrent
  workers and validates every node by reading it back. This theory embeds the three parts
  of \<^verbatim>\<open>main.go\<close> that carry the state: \<^verbatim>\<open>validate\<close>, the workers (\<^verbatim>\<open>addEvent\<close>,
  \<^verbatim>\<open>runEventSimulator\<close>) and \<^verbatim>\<open>runValidationScheduler\<close>. The backend, the clock, the random
  source and the file system are inputs. Exits and panics are results (\<open>Inl\<close>), a loop that
  need not end returns an option.
\<close>

section \<open>Configuration\<close>

text \<open>
  The constants of \<^verbatim>\<open>main.go\<close>. The functions below take the ceiling and the interval
  as parameters and are instantiated with these values.
\<close>

definition WORKERS :: nat where
  "WORKERS = 5"

definition MAX_EVENTS :: "64 word" where
  "MAX_EVENTS = 100000"

definition VALIDATION_INTERVAL :: "64 word" where
  "VALIDATION_INTERVAL = 2500"

definition people :: "string list" where
  "people = [''Alice'', ''Bob'', ''Charlie'', ''David'', ''Eve'']"

definition servers :: "string list" where
  "servers = [''http://localhost:8080'', ''http://localhost:8081'', ''http://localhost:8082'']"

definition pageSize :: nat where
  "pageSize = 1000"

section \<open>Validation engine: \<^verbatim>\<open>validate\<close>\<close>

text \<open>
  A row of \<^verbatim>\<open>queryEvent\<close>: \<^verbatim>\<open>type eventRow struct { Value uint64 }\<close>.
\<close>

datatype eventRow = EventRow (Value: "64 word")

text \<open>
  What one node answers during one pass. The aggregate is asked once and every offset is
  asked at most once in a pass, so a function from the offset to the answer covers a node
  whose contents change while it is read. \<open>Inl\<close> is the error of the call.
\<close>

record client =
  aggregateReply :: "string + int"
  pageReply :: "nat \<Rightarrow> nat \<Rightarrow> string + eventRow list"

definition queryAggregateCount :: "client \<Rightarrow> string + int" where
  "queryAggregateCount c = aggregateReply c"

definition queryEventPage :: "client \<Rightarrow> nat \<Rightarrow> nat \<Rightarrow> string + eventRow list" where
  "queryEventPage c first offset = pageReply c first offset"

text \<open>The ways \<^verbatim>\<open>validate\<close> ends the process: \<^verbatim>\<open>os.Exit(1)\<close> and the index panic.\<close>

datatype fatal =
    AggregateCountFailed string
  | EventPageFailed nat string
  | DuplicateEvent int
  | ServerIndexOutOfRange nat

text \<open>
  The locals of one pass over one node. \<^verbatim>\<open>seen\<close> is the Go map \<^verbatim>\<open>map[int]bool\<close>, kept as an
  association list with one entry per key; the loop over the map only counts, so the
  order of the entries does not show in any result. The counters are Go \<^verbatim>\<open>int\<close>s (64 bit)
  that count rows of the node and stay far below \<open>2 ^ 63\<close>.
\<close>

record snapshot =
  seen :: "(int \<times> bool) list"
  countSeen :: int
  outOfRange :: int
  missed :: int
  max_v :: int

text \<open>\<^verbatim>\<open>make(map[int]bool, highWaterMark)\<close> and the loop that sets every key below the mark to false.\<close>

definition newSnapshot :: "int \<Rightarrow> snapshot" where
  "newSnapshot highWaterMark =
     \<lparr>seen = map (\<lambda>i. (i, False)) [0..highWaterMark - 1],
      countSeen = 0, outOfRange = 0, missed = 0, max_v = 0\<rparr>"

text \<open>\<^verbatim>\<open>seen[value]\<close>: a key that is absent reads as false.\<close>

definition seenAt :: "(int \<times> bool) list \<Rightarrow> int \<Rightarrow> bool" where
  "seenAt m k = (case map_of m k of Some b \<Rightarrow> b | None \<Rightarrow> False)"

text \<open>The body of \<^verbatim>\<open>for _, event := range events\<close>; \<^verbatim>\<open>int(event.Value)\<close> is \<open>sint\<close>.\<close>

definition checkEvent :: "bool \<Rightarrow> int \<Rightarrow> snapshot \<Rightarrow> eventRow \<Rightarrow> fatal + snapshot" where
  "checkEvent final highWaterMark s event =
     (let value = sint (Value event) in
      if value < 0 then Inr (s\<lparr>outOfRange := outOfRange s + 1\<rparr>)
      else if value \<ge> highWaterMark \<and> final
        then Inr (s\<lparr>outOfRange := outOfRange s + 1, countSeen := countSeen s + 1\<rparr>)
      else if value \<ge> highWaterMark \<and> \<not> final then Inr s
      else if seenAt (seen s) value then Inl (DuplicateEvent value)
      else Inr (s\<lparr>seen := AList.update value True (seen s),
                  countSeen := countSeen s + 1,
                  max_v := (if value > max_v s then value else max_v s)\<rparr>))"

fun checkEvents :: "bool \<Rightarrow> int \<Rightarrow> snapshot \<Rightarrow> eventRow list \<Rightarrow> fatal + snapshot" where
  "checkEvents final highWaterMark s [] = Inr s"
| "checkEvents final highWaterMark s (event # events) =
     (case checkEvent final highWaterMark s event of
        Inl e \<Rightarrow> Inl e
      | Inr s' \<Rightarrow> checkEvents final highWaterMark s' events)"

text \<open>
  \<^verbatim>\<open>for offset := 0; ; offset += pageSize\<close>. A node may answer with a page that is not
  empty at every offset, so the loop need not end: \<open>None\<close> is the pass that never returns.
\<close>

partial_function (option) pageLoop ::
  "client \<Rightarrow> bool \<Rightarrow> int \<Rightarrow> nat \<Rightarrow> snapshot \<Rightarrow> (fatal + snapshot) option" where
  "pageLoop c final highWaterMark offset s =
     (case queryEventPage c pageSize offset of
        Inl err \<Rightarrow> Some (Inl (EventPageFailed offset err))
      | Inr events \<Rightarrow>
          if length events = 0 then Some (Inr s)
          else (case checkEvents final highWaterMark s events of
                  Inl e \<Rightarrow> Some (Inl e)
                | Inr s' \<Rightarrow> pageLoop c final highWaterMark (offset + pageSize) s'))"

declare pageLoop.simps [code]

text \<open>\<^verbatim>\<open>for value, ok := range seen { if !ok { ...; missed++ } }\<close>\<close>

fun countMissed :: "(int \<times> bool) list \<Rightarrow> int \<Rightarrow> int" where
  "countMissed [] n = n"
| "countMissed ((value, ok) # rest) n = countMissed rest (if \<not> ok then n + 1 else n)"

text \<open>
  The line that ends a pass over a node: \<^verbatim>\<open>event count mismatch: ...\<close> or
  \<^verbatim>\<open>validation passed: ...\<close> / \<^verbatim>\<open>validation failed: ...\<close>, each with the five figures. The
  lines printed per row and per missing value change no variable and are left out.
\<close>

record figures =
  f_aggregate :: int
  f_seen :: int
  f_outOfRange :: int
  f_missed :: int
  f_max :: int

datatype passFail = Passed | Failed

datatype report = CountMismatch figures | Validation passFail figures

text \<open>What outlives a pass: the table \<^verbatim>\<open>missingCount\<close> and the lines printed.\<close>

record vstate =
  missingCount :: "string \<rightharpoonup> int"
  reports :: "report list"

text \<open>The body of \<^verbatim>\<open>for i, client := range clients\<close>.\<close>

definition validateNode :: "bool \<Rightarrow> nat \<Rightarrow> client \<Rightarrow> vstate \<Rightarrow> (fatal + vstate) option" where
  "validateNode final i c st =
     (case queryAggregateCount c of
        Inl err \<Rightarrow> Some (Inl (AggregateCountFailed err))
      | Inr highWaterMark \<Rightarrow>
          (case pageLoop c final highWaterMark 0 (newSnapshot highWaterMark) of
             None \<Rightarrow> None
           | Some (Inl e) \<Rightarrow> Some (Inl e)
           | Some (Inr s0) \<Rightarrow>
               (let s = s0\<lparr>missed := countMissed (seen s0) (missed s0)\<rparr>;
                    fig = \<lparr>f_aggregate = highWaterMark, f_seen = countSeen s,
                           f_outOfRange = outOfRange s, f_missed = missed s, f_max = max_v s\<rparr>
                in if countSeen s \<noteq> highWaterMark
                   then Some (Inr (st\<lparr>reports := reports st @ [CountMismatch fig]\<rparr>))
                   else if i < length servers
                   then Some (Inr \<lparr>missingCount = (missingCount st)(servers ! i \<mapsto> missed s),
                                   reports = reports st @
                                     [Validation (if outOfRange s > 0 \<or> missed s > 0
                                                  then Failed else Passed) fig]\<rparr>)
                   else Some (Inl (ServerIndexOutOfRange i)))))"

fun validateFrom :: "nat \<Rightarrow> client list \<Rightarrow> bool \<Rightarrow> vstate \<Rightarrow> (fatal + vstate) option" where
  "validateFrom i [] final st = Some (Inr st)"
| "validateFrom i (c # cs) final st =
     (case validateNode final i c st of
        None \<Rightarrow> None
      | Some (Inl e) \<Rightarrow> Some (Inl e)
      | Some (Inr st') \<Rightarrow> validateFrom (Suc i) cs final st')"

definition validate :: "client list \<Rightarrow> bool \<Rightarrow> vstate \<Rightarrow> (fatal + vstate) option" where
  "validate clients final st = validateFrom 0 clients final st"

text \<open>
  A node for the scenarios: it reports the count \<open>n\<close> and pages through the fixed rows
  \<open>rows\<close>, the rows of rank \<open>offset\<close> to \<open>offset + first - 1\<close> on each query.
\<close>

definition fixedNode :: "int \<Rightarrow> eventRow list \<Rightarrow> client" where
  "fixedNode n rows =
     \<lparr>aggregateReply = Inr n,
      pageReply = (\<lambda>first offset. Inr (take first (drop offset rows)))\<rparr>"

definition verdictOf :: "report \<Rightarrow> passFail option" where
  "verdictOf r = (case r of CountMismatch fig \<Rightarrow> None | Validation pf fig \<Rightarrow> Some pf)"

definition figuresOf :: "report \<Rightarrow> figures" where
  "figuresOf r = (case r of CountMismatch fig \<Rightarrow> fig | Validation pf fig \<Rightarrow> fig)"

text \<open>\<^verbatim>\<open>missingCount = map[string]int{}\<close> and nothing printed yet.\<close>

definition initialV :: vstate where
  "initialV = \<lparr>missingCount = Map.empty, reports = []\<rparr>"

text \<open>
  The pages a node serves at the first \<open>n\<close> offsets from \<open>offset\<close> on, put together, when
  each of them is served without error and has a row.
\<close>

fun readPages :: "client \<Rightarrow> nat \<Rightarrow> nat \<Rightarrow> eventRow list option" where
  "readPages c offset 0 = Some []"
| "readPages c offset (Suc n) =
     (case queryEventPage c pageSize offset of
        Inl err \<Rightarrow> None
      | Inr events \<Rightarrow>
          if events = [] then None
          else map_option (\<lambda>rest. events @ rest) (readPages c (offset + pageSize) n))"

text \<open>A row whose value, as an \<^verbatim>\<open>int\<close>, is in the range \<open>[0, h)\<close> of the pass.\<close>

definition inRange :: "int \<Rightarrow> eventRow \<Rightarrow> bool" where
  "inRange h ev \<longleftrightarrow> 0 \<le> sint (Value ev) \<and> sint (Value ev) < h"

text \<open>The entries of \<^verbatim>\<open>seen\<close> that are still false, and what holds of the locals during a pass.\<close>

definition falses :: "(int \<times> bool) list \<Rightarrow> nat" where
  "falses m = length (filter (\<lambda>p. \<not> snd p) m)"

definition passInv :: "bool \<Rightarrow> int \<Rightarrow> snapshot \<Rightarrow> bool" where
  "passInv final h s \<longleftrightarrow>
     map fst (seen s) = [0..h - 1] \<and> missed s = 0 \<and>
     int (length (seen s)) \<le> countSeen s + int (falses (seen s)) \<and>
     countSeen s + int (falses (seen s)) \<le> int (length (seen s)) + outOfRange s \<and>
     (\<not> final \<longrightarrow> countSeen s + int (falses (seen s)) = int (length (seen s)))"

section \<open>Allocator and writers: \<^verbatim>\<open>addEvent\<close> and \<^verbatim>\<open>runEventSimulator\<close>\<close>

text \<open>
  What comes back from the backend for one write: the error of \<^verbatim>\<open>client.MutateRaw\<close>, the
  error of \<^verbatim>\<open>json.Unmarshal(result, &response)\<close>, and the values of
  \<^verbatim>\<open>response.AddEvent.Event\<close>. The three are independent: the client can return data
  together with an error, and a decoding error can leave records behind.
\<close>

record reply =
  rpcError :: "string option"
  unmarshalError :: "string option"
  echoed :: "64 word list"

text \<open>The lines \<^verbatim>\<open>addEvent\<close> writes to the worker's error log, without the time stamp.\<close>

datatype logLine =
    ErrorAddingEvent string
  | ErrorUnmarshaling string
  | FailedToAddEvent "64 word"
  | ValueMismatch "64 word" "64 word"

text \<open>What goes to the standard output when the log cannot be written.\<close>

datatype outLine = ErrorWritingToErrorLog | Printed logLine

datatype panic = RandIntArgument | EventValueMismatch "64 word" "64 word"

text \<open>
  What the surroundings give to one step of a worker: the two random draws, the clock, the
  backend's reply, and whether \<^verbatim>\<open>errLog.WriteString\<close> succeeds.
\<close>

record env =
  rndPerson :: nat
  rndClient :: nat
  now :: nat
  answer :: reply
  logOk :: bool

text \<open>
  Where a worker goroutine stands: waiting for its ticker, holding a value it has just
  reserved, having recorded the time of that value (person and client drawn), inside
  \<^verbatim>\<open>MutateRaw\<close> with the write sent, or returned from \<^verbatim>\<open>runEventSimulator\<close>.
\<close>

datatype wstatus =
    Waiting
  | HasValue "64 word"
  | Recorded "64 word" nat nat
  | Sent "64 word"
  | Returned

text \<open>The shared effects in the order they happen: worker, value, and time or person and client.\<close>

datatype effect =
    Reserve nat "64 word"
  | Stamp nat "64 word" nat
  | Mutate nat "64 word" nat nat

text \<open>
  The globals \<^verbatim>\<open>count\<close> (a \<^verbatim>\<open>uint64\<close>) and \<^verbatim>\<open>insertTime\<close> (keyed by \<^verbatim>\<open>int(value)\<close>), the
  workers, their error logs, the standard output, the effects so far, and the panic that
  ended the process, if any.
\<close>

record world =
  count :: "64 word"
  insertTime :: "int \<rightharpoonup> nat"
  status :: "wstatus list"
  errLog :: "nat \<Rightarrow> logLine list"
  printed :: "outLine list"
  trace :: "effect list"
  crash :: "panic option"

text \<open>\<^verbatim>\<open>mu.Lock(); value := count; count++; mu.Unlock()\<close>: one step, as the lock makes it.\<close>

definition reserve :: "world \<Rightarrow> 64 word \<times> world" where
  "reserve w = (count w, w\<lparr>count := count w + 1\<rparr>)"

text \<open>
  \<^verbatim>\<open>randInt(max)\<close>: \<^verbatim>\<open>rand.Int\<close> panics when \<^verbatim>\<open>max\<close> is not positive and otherwise returns a
  number below \<^verbatim>\<open>max\<close>, here drawn from \<open>r\<close>. The random source itself is taken not to fail.
\<close>

definition randInt :: "nat \<Rightarrow> nat \<Rightarrow> panic + nat" where
  "randInt r max_n = (if max_n = 0 then Inl RandIntArgument else Inr (r mod max_n))"

text \<open>
  \<^verbatim>\<open>if _, err := errLog.WriteString(...); err != nil { ... }\<close>: the line goes to the log, or,
  when the write fails, a line goes to the standard output (the message itself for
  \<^verbatim>\<open>failed to add event\<close>, a notice for the others).
\<close>

definition writeString ::
  "bool \<Rightarrow> logLine \<Rightarrow> logLine list \<times> outLine list \<Rightarrow> logLine list \<times> outLine list" where
  "writeString ok l acc =
     (if ok then (fst acc @ [l], snd acc)
      else (fst acc,
            snd acc @ [case l of FailedToAddEvent v \<Rightarrow> Printed l | _ \<Rightarrow> ErrorWritingToErrorLog]))"

text \<open>
  \<^verbatim>\<open>addEvent\<close> from the return of \<^verbatim>\<open>MutateRaw\<close> on: the lines for the log and the standard
  output, and the value returned or the panic.
\<close>

definition handleReply ::
  "64 word \<Rightarrow> reply \<Rightarrow> bool \<Rightarrow> (logLine list \<times> outLine list) \<times> (panic + 64 word)" where
  "handleReply value r ok =
     (let a1 = (case rpcError r of
                  Some err \<Rightarrow> writeString ok (ErrorAddingEvent err) ([], [])
                | None \<Rightarrow> ([], []));
          a2 = (case unmarshalError r of
                  Some err \<Rightarrow> writeString ok (ErrorUnmarshaling err) a1
                | None \<Rightarrow> a1)
      in if length (echoed r) \<noteq> 1
         then (writeString ok (FailedToAddEvent value) a2, Inr value)
         else if echoed r ! 0 \<noteq> value
         then (writeString ok (ValueMismatch value (echoed r ! 0)) a2,
               Inl (EventValueMismatch value (echoed r ! 0)))
         else (a2, Inr value))"

text \<open>
  One step of worker \<open>i\<close> (goroutine \<open>i + 1\<close> of \<^verbatim>\<open>main\<close>): the reservation; then the draws
  and the entry in \<^verbatim>\<open>insertTime\<close>; then the call of \<^verbatim>\<open>MutateRaw\<close>; then its return with all
  that follows it up to the test \<^verbatim>\<open>eventValue >= MAX_EVENTS\<close> of \<^verbatim>\<open>runEventSimulator\<close>. The two
  locked sections are steps of their own and the write is open between its call and its
  return, so the steps of different workers interleave as the schedule says. After a panic
  nothing moves.
\<close>

definition step :: "64 word \<Rightarrow> nat \<Rightarrow> nat \<times> env \<Rightarrow> world \<Rightarrow> world" where
  "step maxEvents nclients ie w =
     (let i = fst ie; e = snd ie in
      if crash w \<noteq> None \<or> i \<ge> length (status w) then w
      else case status w ! i of
        Waiting \<Rightarrow>
          (case reserve w of
             (value, w') \<Rightarrow>
               w'\<lparr>status := (status w')[i := HasValue value],
                  trace := trace w' @ [Reserve i value]\<rparr>)
      | HasValue value \<Rightarrow>
          (case randInt (rndPerson e) (length people) of
             Inl p \<Rightarrow> w\<lparr>crash := Some p\<rparr>
           | Inr person \<Rightarrow>
               (case randInt (rndClient e) nclients of
                  Inl p \<Rightarrow> w\<lparr>crash := Some p\<rparr>
                | Inr client \<Rightarrow>
                    w\<lparr>insertTime := (insertTime w)(sint value \<mapsto> now e),
                      status := (status w)[i := Recorded value person client],
                      trace := trace w @ [Stamp i value (now e)]\<rparr>))
      | Recorded value person client \<Rightarrow>
          w\<lparr>status := (status w)[i := Sent value],
            trace := trace w @ [Mutate i value person client]\<rparr>
      | Sent value \<Rightarrow>
          (case handleReply value (answer e) (logOk e) of
             ((lines, outs), res) \<Rightarrow>
               (let w' = w\<lparr>errLog := (errLog w)(i := errLog w i @ lines),
                            printed := printed w @ outs\<rparr>
                in case res of
                     Inl p \<Rightarrow> w'\<lparr>crash := Some p\<rparr>
                   | Inr eventValue \<Rightarrow>
                       w'\<lparr>status := (status w)
                             [i := if eventValue \<ge> maxEvents then Returned else Waiting]\<rparr>))
      | Returned \<Rightarrow> w)"

text \<open>A run is a schedule: which worker moves next, and what the surroundings give it.\<close>

fun run :: "64 word \<Rightarrow> nat \<Rightarrow> (nat \<times> env) list \<Rightarrow> world \<Rightarrow> world" where
  "run maxEvents nclients [] w = w"
| "run maxEvents nclients (ie # sched) w = run maxEvents nclients sched (step maxEvents nclients ie w)"

text \<open>
  \<^verbatim>\<open>main\<close> when the workers have started: \<open>n\<close> workers at their tickers, each with its log
  open (a worker whose log cannot be opened panics before its first tick), the counter at 0,
  an empty ledger. The logs are opened for appending; what they held before is left out.
  The context is \<^verbatim>\<open>context.Background()\<close>, so no worker leaves by \<^verbatim>\<open>ctx.Done()\<close>.
\<close>

definition start :: "nat \<Rightarrow> world" where
  "start n = \<lparr>count = 0, insertTime = Map.empty, status = replicate n Waiting,
              errLog = (\<lambda>i. []), printed = [], trace = [], crash = None\<rparr>"

text \<open>The values reserved and the values sent to the backend, in the order of the effects.\<close>

fun reserved :: "effect list \<Rightarrow> 64 word list" where
  "reserved [] = []"
| "reserved (Reserve i v # es) = v # reserved es"
| "reserved (e # es) = reserved es"

fun submitted :: "effect list \<Rightarrow> 64 word list" where
  "submitted [] = []"
| "submitted (Mutate i v p c # es) = v # submitted es"
| "submitted (e # es) = submitted es"

text \<open>The values entered in \<^verbatim>\<open>insertTime\<close>, in the order of the effects.\<close>

fun stamped :: "effect list \<Rightarrow> 64 word list" where
  "stamped [] = []"
| "stamped (Stamp i v t # es) = v # stamped es"
| "stamped (e # es) = stamped es"

text \<open>The values reserved by worker \<open>i\<close>, in their order.\<close>

fun reservedBy :: "nat \<Rightarrow> effect list \<Rightarrow> 64 word list" where
  "reservedBy i [] = []"
| "reservedBy i (Reserve j v # es) = (if j = i then v # reservedBy i es else reservedBy i es)"
| "reservedBy i (e # es) = reservedBy i es"

text \<open>The value a worker holds that has no entry in \<^verbatim>\<open>insertTime\<close> yet.\<close>

fun unstamped :: "wstatus \<Rightarrow> 64 word list" where
  "unstamped (HasValue v) = [v]"
| "unstamped st = []"

text \<open>The values workers hold between the reservation and the call that writes them.\<close>

fun held :: "wstatus \<Rightarrow> 64 word list" where
  "held (HasValue v) = [v]"
| "held (Recorded v p c) = [v]"
| "held st = []"

definition pending :: "world \<Rightarrow> 64 word list" where
  "pending w = concat (map held (status w))"

text \<open>A worker is past the ceiling when it holds a value that has reached it, or has returned.\<close>

fun pastCeiling :: "64 word \<Rightarrow> wstatus \<Rightarrow> bool" where
  "pastCeiling k Waiting = False"
| "pastCeiling k (HasValue v) = (k \<le> v)"
| "pastCeiling k (Recorded v p c) = (k \<le> v)"
| "pastCeiling k (Sent v) = (k \<le> v)"
| "pastCeiling k Returned = True"

text \<open>An answer of the backend that echoes the value, and the surroundings that give it.\<close>

definition echo :: "64 word \<Rightarrow> env" where
  "echo v = \<lparr>rndPerson = 0, rndClient = 0, now = 0,
             answer = \<lparr>rpcError = None, unmarshalError = None, echoed = [v]\<rparr>, logOk = True\<rparr>"

text \<open>
  What holds of every world a run reaches: the reservations are the numbers below the
  counter in their order and the workers past the ceiling are as many as the counter is
  above it; every value reserved is held by a worker or has been sent, once; and an entry in
  \<^verbatim>\<open>insertTime\<close> comes before the write.
\<close>

definition counterInv :: "64 word \<Rightarrow> nat \<Rightarrow> world \<Rightarrow> bool" where
  "counterInv k n w \<longleftrightarrow>
     length (status w) = n \<and>
     map unat (reserved (trace w)) = [0..<unat (count w)] \<and>
     length (filter (pastCeiling k) (status w)) + unat k = max (unat (count w)) (unat k)"

text \<open>A worker past the ceiling has reserved one value that reached it, its last; another worker none.\<close>

definition stopInv :: "64 word \<Rightarrow> world \<Rightarrow> bool" where
  "stopInv k w \<longleftrightarrow>
     (\<forall>i. i < length (status w) \<longrightarrow>
        (if pastCeiling k (status w ! i)
         then \<exists>vs v. reservedBy i (trace w) = vs @ [v] \<and> k \<le> v \<and> (\<forall>u \<in> set vs. u < k)
         else \<forall>u \<in> set (reservedBy i (trace w)). u < k))"

definition onceInv :: "world \<Rightarrow> bool" where
  "onceInv w \<longleftrightarrow> mset (pending w) + mset (submitted (trace w)) = mset (reserved (trace w))"

text \<open>
  The entry of a value in \<^verbatim>\<open>insertTime\<close> is the time of its one effect \<open>Stamp\<close>: a value
  reserved is entered at most once, by the worker that holds it.
\<close>

definition stampInv :: "world \<Rightarrow> bool" where
  "stampInv w \<longleftrightarrow>
     (\<forall>i v t. Stamp i v t \<in> set (trace w) \<longrightarrow> insertTime w (sint v) = Some t) \<and>
     mset (concat (map unstamped (status w))) + mset (stamped (trace w)) =
       mset (reserved (trace w))"

definition ledgerInv :: "world \<Rightarrow> bool" where
  "ledgerInv w \<longleftrightarrow>
     (\<forall>i v p c. i < length (status w) \<longrightarrow> status w ! i = Recorded v p c \<longrightarrow>
        (\<exists>t. Stamp i v t \<in> set (trace w))) \<and>
     (\<forall>i v t. Stamp i v t \<in> set (trace w) \<longrightarrow> insertTime w (sint v) \<noteq> None) \<and>
     (\<forall>pre i v p c post. trace w = pre @ Mutate i v p c # post \<longrightarrow>
        (\<exists>t. Stamp i v t \<in> set pre))"

text \<open>
  Schedules for the examples: a reply that fails in every way short of the fatal one; three
  of five workers interleaved; two workers and one worker running to the end under the
  ceiling 2; and one worker whose first write is lost.
\<close>

definition failing :: env where
  "failing = \<lparr>rndPerson = 3, rndClient = 4, now = 17,
     answer = \<lparr>rpcError = Some ''timeout'', unmarshalError = Some ''unexpected end of JSON input'',
                echoed = []\<rparr>,
     logOk = True\<rparr>"

definition interleaved :: "(nat \<times> env) list" where
  "interleaved = [(0, echo 0), (1, echo 1), (1, echo 1), (0, echo 0), (2, echo 2), (1, echo 1),
                  (0, echo 0), (0, echo 0), (0, echo 3), (1, echo 1), (1, echo 4)]"

definition twoWorkers :: "(nat \<times> env) list" where
  "twoWorkers = [(0, echo 0), (1, echo 1), (0, echo 0), (1, echo 1), (1, echo 1), (0, echo 0),
                 (0, echo 0), (1, echo 1),
                 (1, echo 2), (0, echo 3), (1, echo 2), (0, echo 3), (0, echo 3), (1, echo 2),
                 (0, echo 3), (1, echo 2)]"

definition oneWorker :: "(nat \<times> env) list" where
  "oneWorker = [(0, echo 0), (0, echo 0), (0, echo 0), (0, echo 0),
                (0, echo 1), (0, echo 1), (0, echo 1), (0, echo 1),
                (0, echo 2), (0, echo 2), (0, echo 2), (0, echo 2)]"

definition lostWrite :: "(nat \<times> env) list" where
  "lostWrite = [(0, failing), (0, failing), (0, failing), (0, failing), (0, echo 1)]"

text \<open>
  A reply with an error of the call and one record of another value, and the schedule of
  one worker that receives it for its first write.
\<close>

definition mismatching :: env where
  "mismatching = \<lparr>rndPerson = 3, rndClient = 4, now = 17,
     answer = \<lparr>rpcError = Some ''timeout'', unmarshalError = None, echoed = [7]\<rparr>,
     logOk = True\<rparr>"

definition fatalReply :: "(nat \<times> env) list" where
  "fatalReply = [(0, mismatching), (0, mismatching), (0, mismatching), (0, mismatching), (0, echo 1)]"


section \<open>Validation scheduler: \<^verbatim>\<open>runValidationScheduler\<close>\<close>

text \<open>
  The locals \<^verbatim>\<open>nextValidationAt\<close> and \<^verbatim>\<open>currentCount\<close>, whether the function is blocked on
  its ticker (it left the inner loop by \<^verbatim>\<open>break\<close>) or has returned, the counts at which a
  validation started, and what the validations left behind.
\<close>

record scheduler =
  nextValidationAt :: "64 word"
  currentCount :: "64 word"
  waiting :: bool
  returned :: bool
  started :: "64 word list"
  results :: vstate

definition newScheduler :: "64 word \<Rightarrow> vstate \<Rightarrow> scheduler" where
  "newScheduler interval v =
     \<lparr>nextValidationAt = interval, currentCount = 0, waiting = True, returned = False,
      started = [], results = v\<rparr>"

text \<open>
  The scheduler against what it reads: each element is one turn of the inner loop, the
  value \<^verbatim>\<open>getCount()\<close> returns there and the nodes as they answer if a validation starts.
  The context of \<^verbatim>\<open>main\<close> is never cancelled. \<open>None\<close> is a validation that never returns,
  \<open>Inl\<close> one that ends the process.
\<close>

fun runValidationScheduler ::
  "64 word \<Rightarrow> 64 word \<Rightarrow> (64 word \<times> client list) list \<Rightarrow> scheduler \<Rightarrow> (fatal + scheduler) option" where
  "runValidationScheduler maxEvents interval [] s = Some (Inr s)"
| "runValidationScheduler maxEvents interval ((c, clients) # reads) s =
     (if c \<ge> maxEvents then Some (Inr (s\<lparr>currentCount := c, waiting := False, returned := True\<rparr>))
      else if c < nextValidationAt s
      then runValidationScheduler maxEvents interval reads (s\<lparr>currentCount := c, waiting := True\<rparr>)
      else (case validate clients False (results s) of
              None \<Rightarrow> None
            | Some (Inl e) \<Rightarrow> Some (Inl e)
            | Some (Inr v) \<Rightarrow>
                runValidationScheduler maxEvents interval reads
                  (s\<lparr>currentCount := c, waiting := False, started := started s @ [c],
                     results := v, nextValidationAt := nextValidationAt s + interval\<rparr>)))"

text \<open>
  The scheduler as the specification describes it, to compare with the function above: the
  reads at which a threshold is due, each moving the threshold up by the interval, up to
  the first read at or above the ceiling; and for each of them, in their order, one
  validation that is not final over every node.
\<close>

fun dueReads ::
  "64 word \<Rightarrow> 64 word \<Rightarrow> 64 word \<Rightarrow> (64 word \<times> client list) list \<Rightarrow> (64 word \<times> client list) list" where
  "dueReads maxEvents interval threshold [] = []"
| "dueReads maxEvents interval threshold ((c, clients) # reads) =
     (if c \<ge> maxEvents then []
      else if c < threshold then dueReads maxEvents interval threshold reads
      else (c, clients) # dueReads maxEvents interval (threshold + interval) reads)"

fun nonFinalPasses :: "client list list \<Rightarrow> vstate \<Rightarrow> (fatal + vstate) option" where
  "nonFinalPasses [] v = Some (Inr v)"
| "nonFinalPasses (clients # rest) v =
     (case validateFrom 0 clients False v of
        None \<Rightarrow> None
      | Some (Inl e) \<Rightarrow> Some (Inl e)
      | Some (Inr v') \<Rightarrow> nonFinalPasses rest v')"


text \<open>
  What holds of the scheduler while it runs against nodes of which there are \<open>m\<close>: the
  threshold is the interval times one more than the number of validations started, the
  \<open>j\<close>-th of them started at a count that had reached the \<open>j\<close>-th threshold and was below the
  ceiling, and each left \<open>m\<close> lines.
\<close>

definition schedInv :: "64 word \<Rightarrow> 64 word \<Rightarrow> nat \<Rightarrow> nat \<Rightarrow> scheduler \<Rightarrow> bool" where
  "schedInv k iv m r0 s \<longleftrightarrow>
     unat (nextValidationAt s) = unat iv * Suc (length (started s)) \<and>
     (\<forall>j. j < length (started s) \<longrightarrow>
        unat iv * Suc j \<le> unat (started s ! j) \<and> started s ! j < k) \<and>
     (waiting s \<longrightarrow> currentCount s < nextValidationAt s) \<and>
     (returned s \<longrightarrow> k \<le> currentCount s) \<and>
     length (reports (results s)) = r0 + m * length (started s)"

text \<open>
  Reads for the examples: the scheduler far behind a count that stays below the ceiling, and
  the count reaching the ceiling while the scheduler is one threshold behind.
\<close>

definition twoNodes :: "client list" where
  "twoNodes = [fixedNode 3 [EventRow 0, EventRow 1, EventRow 2], fixedNode 2 [EventRow 0, EventRow 2]]"

definition catchUp :: "(64 word \<times> client list) list" where
  "catchUp = [(100, twoNodes), (7600, twoNodes), (7600, twoNodes), (7700, twoNodes), (7700, twoNodes)]"

definition ceilingDuringCatchUp :: "(64 word \<times> client list) list" where
  "ceilingDuringCatchUp = [(5000, twoNodes), (100000, twoNodes)]"

section \<open>Properties of the validation engine\<close>

lemma checkEvents_append:
  "checkEvents final h s (xs @ ys) =
     (case checkEvents final h s xs of Inl e \<Rightarrow> Inl e | Inr s' \<Rightarrow> checkEvents final h s' ys)"
  by (induction xs arbitrary: s) (auto split: sum.splits)

lemma pageLoop_end:
  "queryEventPage c pageSize offset = Inr [] \<Longrightarrow> pageLoop c final h offset s = Some (Inr s)"
  by (subst pageLoop.simps) simp

lemma pageLoop_error:
  "queryEventPage c pageSize offset = Inl err \<Longrightarrow>
   pageLoop c final h offset s = Some (Inl (EventPageFailed offset err))"
  by (subst pageLoop.simps) simp

lemma pageLoop_page:
  "queryEventPage c pageSize offset = Inr events \<Longrightarrow> events \<noteq> [] \<Longrightarrow>
   pageLoop c final h offset s =
     (case checkEvents final h s events of
        Inl e \<Rightarrow> Some (Inl e)
      | Inr s' \<Rightarrow> pageLoop c final h (offset + pageSize) s')"
  by (subst pageLoop.simps) simp

lemma queryEventPage_fixedNode:
  "queryEventPage (fixedNode n rows) first offset = Inr (take first (drop offset rows))"
  by (simp add: queryEventPage_def fixedNode_def)

lemma pageLoop_fixedNode_drop:
  "pageLoop (fixedNode n rows) final h offset s = Some (checkEvents final h s (drop offset rows))"
proof (induction "length rows - offset" arbitrary: offset s rule: less_induct)
  case less
  let ?d = "drop offset rows"
  show ?case
  proof (cases "?d = []")
    case True
    then have "queryEventPage (fixedNode n rows) pageSize offset = Inr []"
      by (simp add: queryEventPage_fixedNode)
    then show ?thesis using True by (simp add: pageLoop_end)
  next
    case False
    then have lt: "offset < length rows" by simp
    have "drop (offset + pageSize) rows = drop pageSize ?d"
      by (simp add: add.commute)
    then have split: "?d = take pageSize ?d @ drop (offset + pageSize) rows"
      by (metis append_take_drop_id)
    have ne: "take pageSize ?d \<noteq> []" using lt by (simp add: pageSize_def)
    have step: "pageLoop (fixedNode n rows) final h offset s =
        (case checkEvents final h s (take pageSize ?d) of
           Inl e \<Rightarrow> Some (Inl e)
         | Inr s' \<Rightarrow> pageLoop (fixedNode n rows) final h (offset + pageSize) s')"
      using ne by (rule pageLoop_page [OF queryEventPage_fixedNode])
    have dec: "length rows - (offset + pageSize) < length rows - offset"
      using lt by (simp add: pageSize_def)
    show ?thesis
    proof (cases "checkEvents final h s (take pageSize ?d)")
      case (Inl e)
      have "checkEvents final h s ?d = Inl e"
        by (subst split) (simp add: checkEvents_append Inl)
      then show ?thesis using step Inl by simp
    next
      case (Inr s')
      have "checkEvents final h s ?d = checkEvents final h s' (drop (offset + pageSize) rows)"
        by (subst split) (simp add: checkEvents_append Inr)
      then show ?thesis using step Inr less.hyps [OF dec] by simp
    qed
  qed
qed

lemma pageLoop_fixedNode:
  "pageLoop (fixedNode n rows) final h 0 s = Some (checkEvents final h s rows)"
  using pageLoop_fixedNode_drop [of n rows final h 0 s] by simp

lemma countMissed_falses: "countMissed m n = n + int (falses m)"
  by (induction m n rule: countMissed.induct) (auto simp: falses_def)

lemma falses_update:
  "k \<in> fst ` set m \<Longrightarrow> \<not> seenAt m k \<Longrightarrow> Suc (falses (AList.update k True m)) = falses m"
  by (induction m) (auto simp: falses_def seenAt_def split: if_splits)

lemma length_update_present:
  "k \<in> fst ` set m \<Longrightarrow> length (AList.update k v m) = length m"
  by (induction m) auto

lemma passInv_new: "passInv final h (newSnapshot h)"
  by (simp add: passInv_def newSnapshot_def falses_def comp_def)

lemma checkEvent_inv:
  assumes "passInv final h s" "checkEvent final h s ev = Inr s'"
  shows "passInv final h s'"
proof -
  let ?v = "sint (Value ev)"
  show ?thesis
  proof (cases "0 \<le> ?v \<and> ?v < h")
    case False
    then show ?thesis using assms
      by (auto simp: checkEvent_def passInv_def Let_def split: if_splits)
  next
    case True
    then have mem: "?v \<in> fst ` set (seen s)"
      using assms(1) by (simp add: passInv_def flip: set_map)
    have ns: "\<not> seenAt (seen s) ?v" and s': "s' = s\<lparr>seen := AList.update ?v True (seen s),
                  countSeen := countSeen s + 1,
                  max_v := (if ?v > max_v s then ?v else max_v s)\<rparr>"
      using assms(2) True by (auto simp: checkEvent_def Let_def split: if_splits)
    have keys: "map fst (AList.update ?v True (seen s)) = map fst (seen s)"
      using mem by (simp add: update_keys)
    show ?thesis
      using assms(1) falses_update [OF mem ns] length_update_present [OF mem, of True] keys
      by (auto simp: s' passInv_def)
  qed
qed

lemma checkEvents_inv:
  "passInv final h s \<Longrightarrow> checkEvents final h s evs = Inr s' \<Longrightarrow> passInv final h s'"
  by (induction evs arbitrary: s) (auto split: sum.splits dest: checkEvent_inv)

lemma pageLoop_inv:
  assumes eq: "pageLoop c final h offset s = Some r"
  shows "\<forall>s'. passInv final h s \<longrightarrow> r = Inr s' \<longrightarrow> passInv final h s'"
proof (rule pageLoop.raw_induct
    [where P = "\<lambda>c final h offset s r. \<forall>s'. passInv final h s \<longrightarrow> r = Inr s' \<longrightarrow> passInv final h s'",
     OF _ eq])
  fix pl c final h offset s r
  assume IH: "\<And>c final h offset s y. pl c final h offset s = Some y \<Longrightarrow>
      \<forall>s'. passInv final h s \<longrightarrow> y = Inr s' \<longrightarrow> passInv final h s'"
    and body: "(case queryEventPage c pageSize offset of
        Inl err \<Rightarrow> Some (Inl (EventPageFailed offset err))
      | Inr events \<Rightarrow>
          if length events = 0 then Some (Inr s)
          else (case checkEvents final h s events of
                  Inl e \<Rightarrow> Some (Inl e)
                | Inr s' \<Rightarrow> pl c final h (offset + pageSize) s')) = Some r"
  show "\<forall>s'. passInv final h s \<longrightarrow> r = Inr s' \<longrightarrow> passInv final h s'"
    using body IH by (auto split: sum.splits if_splits dest: checkEvents_inv)
qed

lemma queryAggregateCount_fixedNode: "queryAggregateCount (fixedNode n rows) = Inr n"
  by (simp add: queryAggregateCount_def fixedNode_def)

lemma validateNode_Inr:
  assumes "validateNode final i c st = Some (Inr st')"
  obtains h s where "queryAggregateCount c = Inr h"
    and "pageLoop c final h 0 (newSnapshot h) = Some (Inr s)"
    and "countSeen s \<noteq> h \<Longrightarrow>
           st' = st\<lparr>reports := reports st @
             [CountMismatch \<lparr>f_aggregate = h, f_seen = countSeen s, f_outOfRange = outOfRange s,
                f_missed = int (falses (seen s)), f_max = max_v s\<rparr>]\<rparr>"
    and "countSeen s = h \<Longrightarrow>
           i < length servers \<and>
           st' = \<lparr>missingCount = (missingCount st)(servers ! i \<mapsto> int (falses (seen s))),
                  reports = reports st @
                    [Validation (if outOfRange s > 0 \<or> int (falses (seen s)) > 0 then Failed else Passed)
                       \<lparr>f_aggregate = h, f_seen = countSeen s, f_outOfRange = outOfRange s,
                          f_missed = int (falses (seen s)), f_max = max_v s\<rparr>]\<rparr>"
proof -
  from assms obtain h where h: "queryAggregateCount c = Inr h"
    by (auto simp: validateNode_def split: sum.splits)
  from assms h obtain s where s: "pageLoop c final h 0 (newSnapshot h) = Some (Inr s)"
    by (auto simp: validateNode_def split: sum.splits option.splits)
  have "passInv final h s"
    using pageLoop_inv [OF s] passInv_new by blast
  then have m: "missed s = 0" by (simp add: passInv_def)
  show thesis
  proof (rule that [OF h s])
    assume "countSeen s \<noteq> h"
    then show "st' = st\<lparr>reports := reports st @
             [CountMismatch \<lparr>f_aggregate = h, f_seen = countSeen s, f_outOfRange = outOfRange s,
                f_missed = int (falses (seen s)), f_max = max_v s\<rparr>]\<rparr>"
      using assms h s m by (simp add: validateNode_def Let_def countMissed_falses)
  next
    assume "countSeen s = h"
    then show "i < length servers \<and>
           st' = \<lparr>missingCount = (missingCount st)(servers ! i \<mapsto> int (falses (seen s))),
                  reports = reports st @
                    [Validation (if outOfRange s > 0 \<or> int (falses (seen s)) > 0 then Failed else Passed)
                       \<lparr>f_aggregate = h, f_seen = countSeen s, f_outOfRange = outOfRange s,
                          f_missed = int (falses (seen s)), f_max = max_v s\<rparr>]\<rparr>"
      using assms h s m
      by (auto simp: validateNode_def Let_def countMissed_falses split: if_splits)
  qed
qed

lemma validateNode_fixedNode:
  "validateNode final i (fixedNode n rows) st =
     (case checkEvents final n (newSnapshot n) rows of
        Inl e \<Rightarrow> Some (Inl e)
      | Inr s0 \<Rightarrow>
          (let s = s0\<lparr>missed := countMissed (seen s0) (missed s0)\<rparr>;
               fig = \<lparr>f_aggregate = n, f_seen = countSeen s,
                      f_outOfRange = outOfRange s, f_missed = missed s, f_max = max_v s\<rparr>
           in if countSeen s \<noteq> n
              then Some (Inr (st\<lparr>reports := reports st @ [CountMismatch fig]\<rparr>))
              else if i < length servers
              then Some (Inr \<lparr>missingCount = (missingCount st)(servers ! i \<mapsto> missed s),
                              reports = reports st @
                                [Validation (if outOfRange s > 0 \<or> missed s > 0
                                             then Failed else Passed) fig]\<rparr>)
              else Some (Inl (ServerIndexOutOfRange i))))"
  by (simp add: validateNode_def queryAggregateCount_fixedNode pageLoop_fixedNode split: sum.splits)

subsection \<open>The scenarios, evaluated\<close>

lemma scenario_D_final:
  "checkEvents True 5 (newSnapshot 5) [EventRow 0, EventRow 1, EventRow 2, EventRow 3, EventRow 4, EventRow 7] =
     Inr \<lparr>seen = [(0, True), (1, True), (2, True), (3, True), (4, True)],
          countSeen = 6, outOfRange = 1, missed = 0, max_v = 4\<rparr>"
  by code_simp

lemma scenario_shifted_final:
  "checkEvents True 5 (newSnapshot 5) [EventRow 0, EventRow 1, EventRow 2, EventRow 3, EventRow 7] =
     Inr \<lparr>seen = [(0, True), (1, True), (2, True), (3, True), (4, False)],
          countSeen = 5, outOfRange = 1, missed = 0, max_v = 3\<rparr>"
  by code_simp

lemma scenario_A:
  "checkEvents final 5 (newSnapshot 5) [EventRow 0, EventRow 1, EventRow 2, EventRow 3, EventRow 4] =
     Inr \<lparr>seen = [(0, True), (1, True), (2, True), (3, True), (4, True)],
          countSeen = 5, outOfRange = 0, missed = 0, max_v = 4\<rparr>"
  by (cases final) (simp, code_simp, simp, code_simp)

lemma scenario_C_final:
  "checkEvents True 5 (newSnapshot 5) [EventRow 0, EventRow 2, EventRow 3, EventRow 4] =
     Inr \<lparr>seen = [(0, True), (1, False), (2, True), (3, True), (4, True)],
          countSeen = 4, outOfRange = 0, missed = 0, max_v = 4\<rparr>"
  by code_simp

lemma scenario_gap_and_beyond:
  "checkEvents True 3 (newSnapshot 3) [EventRow 0, EventRow 2, EventRow 5] =
     Inr \<lparr>seen = [(0, True), (1, False), (2, True)],
          countSeen = 3, outOfRange = 1, missed = 0, max_v = 2\<rparr>"
  by code_simp

lemma scenario_negative_mark:
  "checkEvents True (- 1) (newSnapshot (- 1)) [] =
     Inr \<lparr>seen = [], countSeen = 0, outOfRange = 0, missed = 0, max_v = 0\<rparr>"
  by code_simp

lemma scenario_D_not_final:
  "checkEvents False 5 (newSnapshot 5)
     [EventRow 0, EventRow 1, EventRow 2, EventRow 3, EventRow 4, EventRow 7] =
   Inr \<lparr>seen = [(0, True), (1, True), (2, True), (3, True), (4, True)],
        countSeen = 5, outOfRange = 0, missed = 0, max_v = 4\<rparr>"
  by code_simp


subsection \<open>The verdict and the table of missing counts\<close>

text \<open>
  C10. When a pass over a node returns, the table \<^verbatim>\<open>missingCount\<close> is the table before the
  pass if the pass ended with \<^verbatim>\<open>countSeen != highWaterMark\<close>, and otherwise the table before
  the pass with the entry of this node's server set to the number of missing values of the
  pass. The figures are those of the line the pass printed last.
\<close>

theorem missingCount_frame:
  assumes "validateNode final i c st = Some (Inr st')"
  shows "missingCount st' =
     (if f_seen (figuresOf (last (reports st'))) = f_aggregate (figuresOf (last (reports st')))
      then (missingCount st)(servers ! i \<mapsto> f_missed (figuresOf (last (reports st'))))
      else missingCount st)"
proof (rule validateNode_Inr [OF assms])
  fix h s
  assume ne: "countSeen s \<noteq> h \<Longrightarrow>
           st' = st\<lparr>reports := reports st @
             [CountMismatch \<lparr>f_aggregate = h, f_seen = countSeen s, f_outOfRange = outOfRange s,
                f_missed = int (falses (seen s)), f_max = max_v s\<rparr>]\<rparr>"
    and eq: "countSeen s = h \<Longrightarrow>
           i < length servers \<and>
           st' = \<lparr>missingCount = (missingCount st)(servers ! i \<mapsto> int (falses (seen s))),
                  reports = reports st @
                    [Validation (if outOfRange s > 0 \<or> int (falses (seen s)) > 0 then Failed else Passed)
                       \<lparr>f_aggregate = h, f_seen = countSeen s, f_outOfRange = outOfRange s,
                          f_missed = int (falses (seen s)), f_max = max_v s\<rparr>]\<rparr>"
  show ?thesis
  proof (cases "countSeen s = h")
    case True
    then show ?thesis using eq by (simp add: figuresOf_def)
  next
    case False
    then show ?thesis using ne by (simp add: figuresOf_def)
  qed
qed

theorem missingCount_frame_witness:
  "validateNode True 0 (fixedNode 5 [EventRow 0, EventRow 1, EventRow 2, EventRow 3, EventRow 4, EventRow 7]) initialV =
     Some (Inr (initialV\<lparr>reports := [CountMismatch
        \<lparr>f_aggregate = 5, f_seen = 6, f_outOfRange = 1, f_missed = 0, f_max = 4\<rparr>]\<rparr>)) \<and>
   missingCount (initialV\<lparr>reports := [CountMismatch
        \<lparr>f_aggregate = 5, f_seen = 6, f_outOfRange = 1, f_missed = 0, f_max = 4\<rparr>]\<rparr>) = missingCount initialV \<and>
   validateNode True 1 (fixedNode 5 [EventRow 0, EventRow 1, EventRow 2, EventRow 3, EventRow 7]) initialV =
     Some (Inr \<lparr>missingCount = (missingCount initialV)(''http://localhost:8081'' \<mapsto> 1),
        reports = [Validation Failed
        \<lparr>f_aggregate = 5, f_seen = 5, f_outOfRange = 1, f_missed = 1, f_max = 3\<rparr>]\<rparr>)"
proof -
  let ?a = "initialV\<lparr>reports := [CountMismatch
        \<lparr>f_aggregate = 5, f_seen = 6, f_outOfRange = 1, f_missed = 0, f_max = 4\<rparr>]\<rparr>"
  let ?b = "\<lparr>missingCount = (missingCount initialV)(''http://localhost:8081'' \<mapsto> 1),
        reports = [Validation Failed
        \<lparr>f_aggregate = 5, f_seen = 5, f_outOfRange = 1, f_missed = 1, f_max = 3\<rparr>]\<rparr>"
  have a: "validateNode True 0 (fixedNode 5 [EventRow 0, EventRow 1, EventRow 2, EventRow 3, EventRow 4, EventRow 7]) initialV = Some (Inr ?a)"
    unfolding validateNode_fixedNode scenario_D_final by (simp add: initialV_def)
  have b: "validateNode True 1 (fixedNode 5 [EventRow 0, EventRow 1, EventRow 2, EventRow 3, EventRow 7]) initialV = Some (Inr ?b)"
    unfolding validateNode_fixedNode scenario_shifted_final by (simp add: initialV_def servers_def)
  have "missingCount ?a = missingCount initialV"
    using missingCount_frame [OF a] by (simp add: figuresOf_def)
  then show ?thesis using a b by simp
qed

text \<open>
  C3, as the code has it. The comparison of \<^verbatim>\<open>countSeen\<close> with \<^verbatim>\<open>highWaterMark\<close> comes first:
  when they differ the pass prints the mismatch line and gives no verdict, whatever
  \<^verbatim>\<open>outOfRange\<close> and \<^verbatim>\<open>missed\<close> are; when they agree the verdict is failed if
  \<^verbatim>\<open>outOfRange > 0\<close> or \<^verbatim>\<open>missed > 0\<close> and passed otherwise.
\<close>

theorem verdict_gated_on_count:
  assumes "validateNode final i c st = Some (Inr st')"
  shows "verdictOf (last (reports st')) =
     (if f_seen (figuresOf (last (reports st'))) \<noteq> f_aggregate (figuresOf (last (reports st')))
      then None
      else if f_outOfRange (figuresOf (last (reports st'))) > 0 \<or>
              f_missed (figuresOf (last (reports st'))) > 0
      then Some Failed else Some Passed)"
proof (rule validateNode_Inr [OF assms])
  fix h s
  assume ne: "countSeen s \<noteq> h \<Longrightarrow>
           st' = st\<lparr>reports := reports st @
             [CountMismatch \<lparr>f_aggregate = h, f_seen = countSeen s, f_outOfRange = outOfRange s,
                f_missed = int (falses (seen s)), f_max = max_v s\<rparr>]\<rparr>"
    and eq: "countSeen s = h \<Longrightarrow>
           i < length servers \<and>
           st' = \<lparr>missingCount = (missingCount st)(servers ! i \<mapsto> int (falses (seen s))),
                  reports = reports st @
                    [Validation (if outOfRange s > 0 \<or> int (falses (seen s)) > 0 then Failed else Passed)
                       \<lparr>f_aggregate = h, f_seen = countSeen s, f_outOfRange = outOfRange s,
                          f_missed = int (falses (seen s)), f_max = max_v s\<rparr>]\<rparr>"
  show ?thesis
  proof (cases "countSeen s = h")
    case True
    then show ?thesis using eq by (simp add: figuresOf_def verdictOf_def)
  next
    case False
    then show ?thesis using ne by (simp add: figuresOf_def verdictOf_def)
  qed
qed

theorem verdict_gated_on_count_witness:
  "verdictOf (Validation Passed
      \<lparr>f_aggregate = 5, f_seen = 5, f_outOfRange = 0, f_missed = 0, f_max = 4\<rparr>) = Some Passed \<and>
   validateNode False 0
      (fixedNode 5 [EventRow 0, EventRow 1, EventRow 2, EventRow 3, EventRow 4]) initialV =
     Some (Inr \<lparr>missingCount = (missingCount initialV)(''http://localhost:8080'' \<mapsto> 0),
        reports = [Validation Passed
          \<lparr>f_aggregate = 5, f_seen = 5, f_outOfRange = 0, f_missed = 0, f_max = 4\<rparr>]\<rparr>) \<and>
   validateNode True 2 (fixedNode 3 [EventRow 0, EventRow 2, EventRow 5]) initialV =
     Some (Inr \<lparr>missingCount = (missingCount initialV)(''http://localhost:8082'' \<mapsto> 1),
        reports = [Validation Failed
          \<lparr>f_aggregate = 3, f_seen = 3, f_outOfRange = 1, f_missed = 1, f_max = 2\<rparr>]\<rparr>) \<and>
   validateNode True 0
      (fixedNode 5 [EventRow 0, EventRow 1, EventRow 2, EventRow 3, EventRow 4, EventRow 7]) initialV =
     Some (Inr (initialV\<lparr>reports := [CountMismatch
        \<lparr>f_aggregate = 5, f_seen = 6, f_outOfRange = 1, f_missed = 0, f_max = 4\<rparr>]\<rparr>)) \<and>
   verdictOf (Validation Failed
      \<lparr>f_aggregate = 3, f_seen = 3, f_outOfRange = 1, f_missed = 1, f_max = 2\<rparr>) = Some Failed \<and>
   verdictOf (CountMismatch
      \<lparr>f_aggregate = 5, f_seen = 6, f_outOfRange = 1, f_missed = 0, f_max = 4\<rparr>) = None"
proof -
  let ?a = "\<lparr>missingCount = (missingCount initialV)(''http://localhost:8080'' \<mapsto> 0),
        reports = [Validation Passed
          \<lparr>f_aggregate = 5, f_seen = 5, f_outOfRange = 0, f_missed = 0, f_max = 4\<rparr>]\<rparr>"
  have a: "validateNode False 0
      (fixedNode 5 [EventRow 0, EventRow 1, EventRow 2, EventRow 3, EventRow 4]) initialV = Some (Inr ?a)"
    unfolding validateNode_fixedNode scenario_A by (simp add: initialV_def servers_def)
  have b: "validateNode True 2 (fixedNode 3 [EventRow 0, EventRow 2, EventRow 5]) initialV =
     Some (Inr \<lparr>missingCount = (missingCount initialV)(''http://localhost:8082'' \<mapsto> 1),
        reports = [Validation Failed
          \<lparr>f_aggregate = 3, f_seen = 3, f_outOfRange = 1, f_missed = 1, f_max = 2\<rparr>]\<rparr>)"
    unfolding validateNode_fixedNode scenario_gap_and_beyond by (simp add: initialV_def servers_def)
  have c: "validateNode True 0
      (fixedNode 5 [EventRow 0, EventRow 1, EventRow 2, EventRow 3, EventRow 4, EventRow 7]) initialV =
     Some (Inr (initialV\<lparr>reports := [CountMismatch
        \<lparr>f_aggregate = 5, f_seen = 6, f_outOfRange = 1, f_missed = 0, f_max = 4\<rparr>]\<rparr>))"
    unfolding validateNode_fixedNode scenario_D_final by (simp add: initialV_def)
  have "verdictOf (last (reports ?a)) = Some Passed"
    using verdict_gated_on_count [OF a] by (simp add: figuresOf_def)
  moreover have "verdictOf (Validation Failed
      \<lparr>f_aggregate = 3, f_seen = 3, f_outOfRange = 1, f_missed = 1, f_max = 2\<rparr>) = Some Failed"
    using verdict_gated_on_count [OF b] by (simp add: figuresOf_def)
  moreover have "verdictOf (CountMismatch
      \<lparr>f_aggregate = 5, f_seen = 6, f_outOfRange = 1, f_missed = 0, f_max = 4\<rparr>) = None"
    using verdict_gated_on_count [OF c] by (simp add: figuresOf_def)
  ultimately show ?thesis using a b c by simp
qed

text \<open>
  C3 as the specification states it fails on Scenario C: the final pass with mark 5 over the
  values 0, 2, 3, 4 counts one missing value, yet it ends with the mismatch line, gives no
  verdict, and leaves the server without an entry in \<^verbatim>\<open>missingCount\<close>.
\<close>

theorem scenario_C_verdict_withheld:
  "validateNode True 0 (fixedNode 5 [EventRow 0, EventRow 2, EventRow 3, EventRow 4]) initialV =
     Some (Inr (initialV\<lparr>reports := [CountMismatch
        \<lparr>f_aggregate = 5, f_seen = 4, f_outOfRange = 0, f_missed = 1, f_max = 4\<rparr>]\<rparr>)) \<and>
   verdictOf (CountMismatch
        \<lparr>f_aggregate = 5, f_seen = 4, f_outOfRange = 0, f_missed = 1, f_max = 4\<rparr>) \<noteq> Some Failed \<and>
   missingCount (initialV\<lparr>reports := [CountMismatch
        \<lparr>f_aggregate = 5, f_seen = 4, f_outOfRange = 0, f_missed = 1, f_max = 4\<rparr>]\<rparr>)
      (servers ! 0) \<noteq> Some 1"
  unfolding validateNode_fixedNode scenario_C_final
  by (simp add: initialV_def verdictOf_def)

subsection \<open>The counters of a final pass\<close>

lemma passInv_length: "passInv final h s \<Longrightarrow> int (length (seen s)) = (if 0 \<le> h then h else 0)"
proof -
  assume "passInv final h s"
  then have "length (map fst (seen s)) = length [0..h - 1]" by (simp add: passInv_def)
  then show ?thesis by simp
qed

lemma validateNode_passInv:
  assumes "validateNode final i c st = Some (Inr st')"
  obtains s where "passInv final (f_aggregate (figuresOf (last (reports st')))) s"
    and "f_seen (figuresOf (last (reports st'))) = countSeen s"
    and "f_outOfRange (figuresOf (last (reports st'))) = outOfRange s"
    and "f_missed (figuresOf (last (reports st'))) = int (falses (seen s))"
proof (rule validateNode_Inr [OF assms])
  fix h s
  assume pl: "pageLoop c final h 0 (newSnapshot h) = Some (Inr s)"
    and ne: "countSeen s \<noteq> h \<Longrightarrow>
           st' = st\<lparr>reports := reports st @
             [CountMismatch \<lparr>f_aggregate = h, f_seen = countSeen s, f_outOfRange = outOfRange s,
                f_missed = int (falses (seen s)), f_max = max_v s\<rparr>]\<rparr>"
    and eq: "countSeen s = h \<Longrightarrow>
           i < length servers \<and>
           st' = \<lparr>missingCount = (missingCount st)(servers ! i \<mapsto> int (falses (seen s))),
                  reports = reports st @
                    [Validation (if outOfRange s > 0 \<or> int (falses (seen s)) > 0 then Failed else Passed)
                       \<lparr>f_aggregate = h, f_seen = countSeen s, f_outOfRange = outOfRange s,
                          f_missed = int (falses (seen s)), f_max = max_v s\<rparr>]\<rparr>"
  have inv: "passInv final h s" using pageLoop_inv [OF pl] passInv_new by blast
  have fig: "figuresOf (last (reports st')) =
      \<lparr>f_aggregate = h, f_seen = countSeen s, f_outOfRange = outOfRange s,
                f_missed = int (falses (seen s)), f_max = max_v s\<rparr>"
  proof (cases "countSeen s = h")
    case True
    then show ?thesis using eq by (simp add: figuresOf_def)
  next
    case False
    then show ?thesis using ne by (simp add: figuresOf_def)
  qed
  show thesis by (rule that [of s]) (simp_all add: fig inv)
qed

text \<open>
  C4, as the code has it. A final pass counts a value at or above the mark both in
  \<^verbatim>\<open>outOfRange\<close> and in \<^verbatim>\<open>countSeen\<close>, so \<^verbatim>\<open>countSeen == highWaterMark\<close> does not tell
  that nothing is out of range or missing. What holds is: in a final pass with a mark that is
  not negative and \<^verbatim>\<open>outOfRange == 0\<close>, no value is missing if and only if
  \<^verbatim>\<open>countSeen == highWaterMark\<close>. So \<^verbatim>\<open>outOfRange == 0\<close> and \<^verbatim>\<open>missed == 0\<close> give
  \<^verbatim>\<open>countSeen == highWaterMark\<close>.
\<close>

theorem final_pass_counts:
  assumes "validateNode True i c st = Some (Inr st')"
    and "0 \<le> f_aggregate (figuresOf (last (reports st')))"
    and "f_outOfRange (figuresOf (last (reports st'))) = 0"
  shows "f_missed (figuresOf (last (reports st'))) = 0 \<longleftrightarrow>
         f_seen (figuresOf (last (reports st'))) = f_aggregate (figuresOf (last (reports st')))"
proof (rule validateNode_passInv [OF assms(1)])
  fix s
  assume inv: "passInv True (f_aggregate (figuresOf (last (reports st')))) s"
    and a: "f_seen (figuresOf (last (reports st'))) = countSeen s"
    and b: "f_outOfRange (figuresOf (last (reports st'))) = outOfRange s"
    and c: "f_missed (figuresOf (last (reports st'))) = int (falses (seen s))"
  have len: "int (length (seen s)) = f_aggregate (figuresOf (last (reports st')))"
    using passInv_length [OF inv] assms(2) by simp
  have "countSeen s + int (falses (seen s)) = int (length (seen s))"
    using inv b assms(3) by (simp add: passInv_def)
  then show ?thesis using len a c by auto
qed

theorem final_pass_counts_witness:
  "validateNode True 0
      (fixedNode 5 [EventRow 0, EventRow 1, EventRow 2, EventRow 3, EventRow 4]) initialV =
     Some (Inr \<lparr>missingCount = (missingCount initialV)(''http://localhost:8080'' \<mapsto> 0),
        reports = [Validation Passed
          \<lparr>f_aggregate = 5, f_seen = 5, f_outOfRange = 0, f_missed = 0, f_max = 4\<rparr>]\<rparr>) \<and>
   f_missed (figuresOf (last (reports
     \<lparr>missingCount = (missingCount initialV)(''http://localhost:8080'' \<mapsto> 0),
        reports = [Validation Passed
          \<lparr>f_aggregate = 5, f_seen = 5, f_outOfRange = 0, f_missed = 0, f_max = 4\<rparr>]\<rparr>))) = 0 \<and>
   validateNode True 0 (fixedNode 5 [EventRow 0, EventRow 2, EventRow 3, EventRow 4]) initialV =
     Some (Inr (initialV\<lparr>reports := [CountMismatch
        \<lparr>f_aggregate = 5, f_seen = 4, f_outOfRange = 0, f_missed = 1, f_max = 4\<rparr>]\<rparr>)) \<and>
   f_missed (figuresOf (last (reports (initialV\<lparr>reports := [CountMismatch
        \<lparr>f_aggregate = 5, f_seen = 4, f_outOfRange = 0, f_missed = 1, f_max = 4\<rparr>]\<rparr>)))) \<noteq> 0"
proof -
  let ?a = "\<lparr>missingCount = (missingCount initialV)(''http://localhost:8080'' \<mapsto> 0),
        reports = [Validation Passed
          \<lparr>f_aggregate = 5, f_seen = 5, f_outOfRange = 0, f_missed = 0, f_max = 4\<rparr>]\<rparr>"
  let ?c = "initialV\<lparr>reports := [CountMismatch
        \<lparr>f_aggregate = 5, f_seen = 4, f_outOfRange = 0, f_missed = 1, f_max = 4\<rparr>]\<rparr>"
  have a: "validateNode True 0
      (fixedNode 5 [EventRow 0, EventRow 1, EventRow 2, EventRow 3, EventRow 4]) initialV = Some (Inr ?a)"
    unfolding validateNode_fixedNode scenario_A by (simp add: initialV_def servers_def)
  have c: "validateNode True 0 (fixedNode 5 [EventRow 0, EventRow 2, EventRow 3, EventRow 4]) initialV =
     Some (Inr ?c)"
    unfolding validateNode_fixedNode scenario_C_final by (simp add: initialV_def)
  have "(f_missed (figuresOf (last (reports ?a))) = 0) =
     (f_seen (figuresOf (last (reports ?a))) = f_aggregate (figuresOf (last (reports ?a))))"
    by (rule final_pass_counts [OF a]) (simp_all add: figuresOf_def)
  moreover have "f_seen (figuresOf (last (reports ?a))) = f_aggregate (figuresOf (last (reports ?a)))"
    by (simp add: figuresOf_def)
  ultimately have ma: "f_missed (figuresOf (last (reports ?a))) = 0" by blast
  have "(f_missed (figuresOf (last (reports ?c))) = 0) =
     (f_seen (figuresOf (last (reports ?c))) = f_aggregate (figuresOf (last (reports ?c))))"
    by (rule final_pass_counts [OF c]) (simp_all add: figuresOf_def)
  moreover have "f_seen (figuresOf (last (reports ?c))) \<noteq> f_aggregate (figuresOf (last (reports ?c)))"
    by (simp add: figuresOf_def)
  ultimately have mc: "f_missed (figuresOf (last (reports ?c))) \<noteq> 0" by blast
  show ?thesis using a c ma mc by blast
qed

text \<open>
  C4 as the specification states it fails in the direction from the count to the flags:
  the final pass with mark 5 over the values 0, 1, 2, 3, 7 has \<^verbatim>\<open>countSeen = 5\<close> with one value
  out of range and one missing. With a negative mark it fails in the other direction too:
  the final pass with mark -1 over no rows has no flag raised and \<^verbatim>\<open>countSeen = 0\<close>.
\<close>

theorem count_agrees_with_flags_raised:
  "validateNode True 1 (fixedNode 5 [EventRow 0, EventRow 1, EventRow 2, EventRow 3, EventRow 7]) initialV =
     Some (Inr \<lparr>missingCount = (missingCount initialV)(''http://localhost:8081'' \<mapsto> 1),
        reports = [Validation Failed
        \<lparr>f_aggregate = 5, f_seen = 5, f_outOfRange = 1, f_missed = 1, f_max = 3\<rparr>]\<rparr>) \<and>
   validateNode True 0 (fixedNode (- 1) []) initialV =
     Some (Inr (initialV\<lparr>reports := [CountMismatch
        \<lparr>f_aggregate = - 1, f_seen = 0, f_outOfRange = 0, f_missed = 0, f_max = 0\<rparr>]\<rparr>))"
  unfolding validateNode_fixedNode scenario_shifted_final scenario_negative_mark
  by (simp add: initialV_def servers_def)


subsection \<open>Duplicates\<close>

lemma sint_Value_inj: "sint (Value a) = sint (Value b) \<Longrightarrow> a = b"
  by (rule eventRow.expand) (rule signed_word_eqI)

lemma seenAt_new: "\<not> seenAt (seen (newSnapshot h)) k"
proof -
  have "map_of (map (\<lambda>i. (i, False)) xs) k \<noteq> Some True" for xs :: "int list"
    by (induction xs) auto
  then show ?thesis
    by (auto simp: seenAt_def newSnapshot_def split: option.splits)
qed

lemma seenAt_update: "seenAt (AList.update v True m) k \<longleftrightarrow> k = v \<or> seenAt m k"
  by (simp add: seenAt_def update_conv')

lemma checkEvent_accept:
  assumes "inRange h ev" "\<not> seenAt (seen s) (sint (Value ev))"
  shows "checkEvent final h s ev =
     Inr (s\<lparr>seen := AList.update (sint (Value ev)) True (seen s),
            countSeen := countSeen s + 1,
            max_v := (if sint (Value ev) > max_v s then sint (Value ev) else max_v s)\<rparr>)"
  using assms by (simp add: checkEvent_def inRange_def Let_def)

lemma checkEvent_outside:
  assumes "\<not> inRange h ev"
  shows "\<exists>s'. checkEvent final h s ev = Inr s' \<and> seen s' = seen s"
proof -
  have "sint (Value ev) < 0 \<or> h \<le> sint (Value ev)"
    using assms by (auto simp: inRange_def)
  then show ?thesis by (cases final) (auto simp: checkEvent_def Let_def)
qed

lemma checkEvent_duplicate:
  assumes "inRange h ev" "seenAt (seen s) (sint (Value ev))"
  shows "checkEvent final h s ev = Inl (DuplicateEvent (sint (Value ev)))"
  using assms by (simp add: checkEvent_def inRange_def Let_def)

lemma checkEvent_seenAt_mono:
  assumes "checkEvent final h s ev = Inr s'" "seenAt (seen s) k"
  shows "seenAt (seen s') k"
proof (cases "inRange h ev")
  case True
  then have "\<not> seenAt (seen s) (sint (Value ev))"
    using assms(1) checkEvent_duplicate [of h ev s final] by auto
  from checkEvent_accept [OF True this, of final] assms show ?thesis
    by (auto simp: seenAt_update)
next
  case False
  from checkEvent_outside [OF False, of final s] assms show ?thesis by auto
qed

lemma checkEvents_seenAt_mono:
  "checkEvents final h s evs = Inr s' \<Longrightarrow> seenAt (seen s) k \<Longrightarrow> seenAt (seen s') k"
proof (induction evs arbitrary: s)
  case Nil
  then show ?case by simp
next
  case (Cons x xs)
  from Cons.prems(1) obtain s1 where s1: "checkEvent final h s x = Inr s1"
    and r: "checkEvents final h s1 xs = Inr s'"
    by (auto split: sum.splits)
  show ?case by (rule Cons.IH [OF r checkEvent_seenAt_mono [OF s1 Cons.prems(2)]])
qed

lemma checkEvents_distinct:
  assumes "distinct (filter (inRange h) pre)"
    and "\<And>e. e \<in> set pre \<Longrightarrow> inRange h e \<Longrightarrow> \<not> seenAt (seen s) (sint (Value e))"
  shows "\<exists>s'. checkEvents final h s pre = Inr s' \<and>
     (\<forall>e. e \<in> set pre \<longrightarrow> inRange h e \<longrightarrow> seenAt (seen s') (sint (Value e)))"
  using assms
proof (induction pre arbitrary: s)
  case Nil
  then show ?case by simp
next
  case (Cons a pre)
  show ?case
  proof (cases "inRange h a")
    case True
    let ?s1 = "s\<lparr>seen := AList.update (sint (Value a)) True (seen s),
            countSeen := countSeen s + 1,
            max_v := (if sint (Value a) > max_v s then sint (Value a) else max_v s)\<rparr>"
    have "\<not> seenAt (seen s) (sint (Value a))" using Cons.prems(2) True by simp
    then have s1: "checkEvent final h s a = Inr ?s1"
      by (rule checkEvent_accept [OF True])
    have d: "distinct (filter (inRange h) pre)" and na: "a \<notin> set pre"
      using Cons.prems(1) True by auto
    have fresh: "\<not> seenAt (seen ?s1) (sint (Value e))" if "e \<in> set pre" "inRange h e" for e
    proof -
      have "e \<noteq> a" using that(1) na by auto
      then have "sint (Value e) \<noteq> sint (Value a)" using sint_Value_inj by blast
      moreover have "\<not> seenAt (seen s) (sint (Value e))" using Cons.prems(2) that by simp
      ultimately show ?thesis by (simp add: seenAt_update)
    qed
    from Cons.IH [OF d fresh] obtain s' where
      r: "checkEvents final h ?s1 pre = Inr s'"
      and m: "\<forall>e. e \<in> set pre \<longrightarrow> inRange h e \<longrightarrow> seenAt (seen s') (sint (Value e))" by blast
    have "seenAt (seen ?s1) (sint (Value a))" by (simp add: seenAt_update)
    then have "seenAt (seen s') (sint (Value a))"
      by (rule checkEvents_seenAt_mono [OF r])
    then show ?thesis using s1 r m by auto
  next
    case False
    from checkEvent_outside [OF False, of final s] obtain s1
      where s1: "checkEvent final h s a = Inr s1" and m1: "seen s1 = seen s" by blast
    have d: "distinct (filter (inRange h) pre)" using Cons.prems(1) False by simp
    have fresh: "\<not> seenAt (seen s1) (sint (Value e))" if "e \<in> set pre" "inRange h e" for e
      using that Cons.prems(2) [of e] m1 by simp
    from Cons.IH [OF d fresh] obtain s' where
      "checkEvents final h s1 pre = Inr s'"
      "\<forall>e. e \<in> set pre \<longrightarrow> inRange h e \<longrightarrow> seenAt (seen s') (sint (Value e))" by blast
    then show ?thesis using s1 False by auto
  qed
qed

lemma checkEvents_first_duplicate:
  assumes "inRange h ev" "ev \<in> set pre" "distinct (filter (inRange h) pre)"
  shows "checkEvents final h (newSnapshot h) (pre @ ev # post) =
     Inl (DuplicateEvent (sint (Value ev)))"
proof -
  from checkEvents_distinct [OF assms(3), of "newSnapshot h" final] seenAt_new
  obtain s' where s': "checkEvents final h (newSnapshot h) pre = Inr s'"
    and m: "\<forall>e. e \<in> set pre \<longrightarrow> inRange h e \<longrightarrow> seenAt (seen s') (sint (Value e))"
    by blast
  have "seenAt (seen s') (sint (Value ev))" using m assms(1,2) by blast
  then have "checkEvent final h s' ev = Inl (DuplicateEvent (sint (Value ev)))"
    using assms(1) by (rule checkEvent_duplicate [rotated])
  then show ?thesis by (simp add: checkEvents_append s')
qed

lemma pageLoop_readPages_exit:
  "readPages c offset m = Some rows \<Longrightarrow> checkEvents final h s rows = Inl e \<Longrightarrow>
   pageLoop c final h offset s = Some (Inl e)"
proof (induction m arbitrary: offset s rows)
  case 0
  then show ?case by simp
next
  case (Suc m)
  from Suc.prems(1) obtain events rest where
    q: "queryEventPage c pageSize offset = Inr events" and ne: "events \<noteq> []"
    and rest: "readPages c (offset + pageSize) m = Some rest" and rows: "rows = events @ rest"
    by (auto split: sum.splits if_splits)
  show ?case
  proof (cases "checkEvents final h s events")
    case (Inl e')
    then have "e' = e" using Suc.prems(2) by (simp add: rows checkEvents_append)
    then show ?thesis using Inl by (simp add: pageLoop_page [OF q ne])
  next
    case (Inr s')
    then have "checkEvents final h s' rest = Inl e"
      using Suc.prems(2) by (simp add: rows checkEvents_append)
    from Suc.IH [OF rest this] show ?thesis using Inr by (simp add: pageLoop_page [OF q ne])
  qed
qed

text \<open>
  C5. Let a node report the mark \<open>h\<close> and serve, on its first \<open>m\<close> pages, the rows
  \<open>pre\<close>, then \<open>ev\<close>, then \<open>post\<close>, where the value of \<open>ev\<close> is in \<open>[0, h)\<close>, occurs in \<open>pre\<close>,
  and is the first to occur twice. Then the validation ends the process at \<open>ev\<close> with
  this value as the duplicate reported: whatever follows \<open>ev\<close> on these pages, whatever the
  node would serve on later pages, whether the pass is final, whatever nodes come next and
  whatever the table held. The result is a function of the rows up to \<open>ev\<close> and the mark.
\<close>

theorem duplicate_halts:
  assumes "queryAggregateCount c = Inr h"
    and "readPages c 0 m = Some (pre @ ev # post)"
    and "0 \<le> sint (Value ev)" and "sint (Value ev) < h"
    and "ev \<in> set pre"
    and "distinct (filter (inRange h) pre)"
  shows "validateFrom i (c # rest) final st = Some (Inl (DuplicateEvent (sint (Value ev))))"
proof -
  have "inRange h ev" using assms(3,4) by (simp add: inRange_def)
  then have "checkEvents final h (newSnapshot h) (pre @ ev # post) =
     Inl (DuplicateEvent (sint (Value ev)))"
    using assms(5,6) by (rule checkEvents_first_duplicate)
  then have "pageLoop c final h 0 (newSnapshot h) = Some (Inl (DuplicateEvent (sint (Value ev))))"
    by (rule pageLoop_readPages_exit [OF assms(2)])
  then show ?thesis by (simp add: validateNode_def assms(1))
qed


theorem duplicate_halts_witness:
  "queryAggregateCount
     (fixedNode 5 [EventRow 0, EventRow 1, EventRow 1, EventRow 3, EventRow 4]) = Inr 5 \<and>
   readPages (fixedNode 5 [EventRow 0, EventRow 1, EventRow 1, EventRow 3, EventRow 4]) 0 1 =
     Some ([EventRow 0, EventRow 1] @ EventRow 1 # [EventRow 3, EventRow 4]) \<and>
   distinct (filter (inRange 5) [EventRow 0, EventRow 1]) \<and>
   validateFrom 0
     [fixedNode 5 [EventRow 0, EventRow 1, EventRow 1, EventRow 3, EventRow 4], fixedNode 0 []]
     True initialV = Some (Inl (DuplicateEvent 1))"
proof -
  let ?c = "fixedNode 5 [EventRow 0, EventRow 1, EventRow 1, EventRow 3, EventRow 4]"
  have a: "queryAggregateCount ?c = Inr 5" by (rule queryAggregateCount_fixedNode)
  have r: "readPages ?c 0 1 = Some ([EventRow 0, EventRow 1] @ EventRow 1 # [EventRow 3, EventRow 4])"
    by (simp add: queryEventPage_fixedNode pageSize_def)
  have d: "distinct (filter (inRange 5) [EventRow 0, EventRow 1])"
    by (simp add: inRange_def)
  have "validateFrom 0 (?c # [fixedNode 0 []]) True initialV =
      Some (Inl (DuplicateEvent (sint (Value (EventRow 1)))))"
    by (rule duplicate_halts [OF a r _ _ _ d]) simp_all
  then show ?thesis using a r d by simp
qed

subsection \<open>Values at or above the mark\<close>







section \<open>Properties of the allocator and the writers\<close>

lemma handleReply_value: "handleReply v r ok = (x, Inr ev) \<Longrightarrow> ev = v"
  by (auto simp: handleReply_def Let_def split: if_splits)

lemma step_cases [consumes 0, case_names idle reserve crashed stamp send receive]:
  obtains
    (idle) "step k nc (i, e) w = w"
  | (reserve) "i < length (status w)" "status w ! i = Waiting"
      "step k nc (i, e) w =
         w\<lparr>count := count w + 1, status := (status w)[i := HasValue (count w)],
           trace := trace w @ [Reserve i (count w)]\<rparr>"
  | (crashed) v p where "i < length (status w)" "status w ! i = HasValue v \<or> status w ! i = Sent v"
      "\<exists>lns outs. step k nc (i, e) w = w\<lparr>errLog := (errLog w)(i := errLog w i @ lns), printed := printed w @ outs, crash := Some p\<rparr>"
  | (stamp) v p c where "i < length (status w)" "status w ! i = HasValue v"
      "step k nc (i, e) w =
         w\<lparr>insertTime := (insertTime w)(sint v \<mapsto> now e),
           status := (status w)[i := Recorded v p c],
           trace := trace w @ [Stamp i v (now e)]\<rparr>"
  | (send) v p c where "i < length (status w)" "status w ! i = Recorded v p c"
      "step k nc (i, e) w =
         w\<lparr>status := (status w)[i := Sent v], trace := trace w @ [Mutate i v p c]\<rparr>"
  | (receive) v lns outs where "i < length (status w)" "status w ! i = Sent v"
      "step k nc (i, e) w =
         w\<lparr>errLog := (errLog w)(i := errLog w i @ lns), printed := printed w @ outs,
           status := (status w)[i := if v \<ge> k then Returned else Waiting]\<rparr>"
proof (cases "crash w \<noteq> None \<or> i \<ge> length (status w)")
  case True
  then show ?thesis using idle by (simp add: step_def)
next
  case False
  then have i: "i < length (status w)" and nc: "crash w = None" by auto
  show ?thesis
  proof (cases "status w ! i")
    case Waiting
    then show ?thesis using i nc reserve by (simp add: step_def reserve_def)
  next
    case (HasValue v)
    show ?thesis
    proof (cases "randInt (rndPerson e) (length people)")
      case (Inl p)
      then have "step k nc (i, e) w = w\<lparr>errLog := (errLog w)(i := errLog w i @ []), printed := printed w @ [], crash := Some p\<rparr>"
        using i nc HasValue by (simp add: step_def)
      then show ?thesis using crashed i HasValue by blast
    next
      case (Inr person)
      show ?thesis
      proof (cases "randInt (rndClient e) nc")
        case (Inl p)
        then have "step k nc (i, e) w = w\<lparr>errLog := (errLog w)(i := errLog w i @ []), printed := printed w @ [], crash := Some p\<rparr>"
          using i nc HasValue Inr by (simp add: step_def)
        then show ?thesis using crashed i HasValue by blast
      next
        case (Inr client)
        then show ?thesis using i nc HasValue \<open>randInt (rndPerson e) (length people) = Inr person\<close> stamp
          by (simp add: step_def)
      qed
    qed
  next
    case (Recorded v p c)
    then show ?thesis using i nc send by (simp add: step_def)
  next
    case (Sent v)
    obtain lns outs res where hr: "handleReply v (answer e) (logOk e) = ((lns, outs), res)"
      by (metis surj_pair)
    show ?thesis
    proof (cases res)
      case (Inl p)
      then have "step k nc (i, e) w = w\<lparr>errLog := (errLog w)(i := errLog w i @ lns), printed := printed w @ outs, crash := Some p\<rparr>"
        using i nc Sent hr by (simp add: step_def)
      then show ?thesis using crashed i Sent by blast
    next
      case (Inr ev)
      then have "ev = v" using hr handleReply_value by blast
      then show ?thesis using i nc Sent hr Inr receive by (simp add: step_def)
    qed
  next
    case Returned
    then show ?thesis using i nc idle by (simp add: step_def)
  qed
qed


lemma reserved_append: "reserved (xs @ ys) = reserved xs @ reserved ys"
  by (induction xs rule: reserved.induct) auto

lemma submitted_append: "submitted (xs @ ys) = submitted xs @ submitted ys"
  by (induction xs rule: submitted.induct) auto

lemma length_filter_update:
  "i < length xs \<Longrightarrow>
   length (filter P (xs[i := y])) + (if P (xs ! i) then 1 else 0) =
   length (filter P xs) + (if P y then 1 else 0)"
proof (induction xs arbitrary: i)
  case Nil
  then show ?case by simp
next
  case (Cons x xs)
  then show ?case by (cases i) auto
qed

lemma mset_held_update:
  "i < length xs \<Longrightarrow>
   mset (concat (map held (xs[i := y]))) + mset (held (xs ! i)) =
   mset (concat (map held xs)) + mset (held y)"
proof (induction xs arbitrary: i)
  case Nil
  then show ?case by simp
next
  case (Cons x xs)
  then show ?case by (cases i) auto
qed

lemma unat_count_Suc:
  fixes c :: "64 word"
  assumes "unat c + 1 < 2 ^ 64"
  shows "unat (c + 1) = Suc (unat c)"
  using assms by (simp add: unat_word_ariths)

lemma counterInv_start: "counterInv k n (start n)"
  by (simp add: counterInv_def start_def)

lemma counterInv_step:
  assumes inv: "counterInv k n w" and bound: "unat k + n < 2 ^ 64"
  shows "counterInv k n (step k nc (i, e) w)"
proof (cases rule: step_cases [of k nc i e w])
  case idle
  then show ?thesis using inv by simp
next
  case reserve
  have len: "length (status w) = n" using inv by (simp add: counterInv_def)
  have "status w ! i \<in> set (status w)" "\<not> pastCeiling k (status w ! i)"
    using reserve(1,2) nth_mem [of i "status w"] by simp_all
  then have "length (filter (pastCeiling k) (status w)) < n"
    using length_filter_less [of "status w ! i" "status w" "pastCeiling k"] len by simp
  then have "unat (count w) < unat k + n"
    using inv by (auto simp: counterInv_def max_def split: if_splits)
  then have "unat (count w) + 1 < 2 ^ 64"
    using bound by linarith
  then have suc: "unat (count w + 1) = Suc (unat (count w))"
    by (rule unat_count_Suc)
  have upd: "length (filter (pastCeiling k) ((status w)[i := HasValue (count w)])) =
      length (filter (pastCeiling k) (status w)) + (if k \<le> count w then 1 else 0)"
    using length_filter_update [OF reserve(1), of "pastCeiling k" "HasValue (count w)"] reserve(2)
    by simp
  show ?thesis
    using inv upd suc
    by (auto simp: reserve(3) counterInv_def reserved_append word_le_nat_alt)
next
  case (crashed v p)
  then show ?thesis using inv by (auto simp: counterInv_def)
next
  case (stamp v p c)
  have "length (filter (pastCeiling k) ((status w)[i := Recorded v p c])) =
      length (filter (pastCeiling k) (status w))"
    using length_filter_update [OF stamp(1), of "pastCeiling k" "Recorded v p c"] stamp(2) by simp
  then show ?thesis using inv by (simp add: stamp(3) counterInv_def reserved_append)
next
  case (send v p c)
  have "length (filter (pastCeiling k) ((status w)[i := Sent v])) =
      length (filter (pastCeiling k) (status w))"
    using length_filter_update [OF send(1), of "pastCeiling k" "Sent v"] send(2) by simp
  then show ?thesis using inv by (simp add: send(3) counterInv_def reserved_append)
next
  case (receive v lns outs)
  have "length (filter (pastCeiling k) ((status w)[i := if k \<le> v then Returned else Waiting])) =
      length (filter (pastCeiling k) (status w))"
    using length_filter_update [OF receive(1), of "pastCeiling k" "if k \<le> v then Returned else Waiting"]
      receive(2) by (simp split: if_splits)
  then show ?thesis using inv by (simp add: receive(3) counterInv_def)
qed

lemma counterInv_run:
  "counterInv k n w \<Longrightarrow> unat k + n < 2 ^ 64 \<Longrightarrow> counterInv k n (run k nc sched w)"
proof (induction sched arbitrary: w)
  case Nil
  then show ?case by simp
next
  case (Cons ie sched)
  then show ?case using counterInv_step [of k n w nc "fst ie" "snd ie"] by simp
qed

lemma onceInv_start: "onceInv (start n)"
  by (simp add: onceInv_def start_def pending_def)

lemma onceInv_step:
  assumes inv: "onceInv w"
  shows "onceInv (step k nc (i, e) w)"
proof (cases rule: step_cases [of k nc i e w])
  case idle
  then show ?thesis using inv by simp
next
  case reserve
  then show ?thesis
    using inv mset_held_update [OF reserve(1), of "HasValue (count w)"]
    by (simp add: onceInv_def pending_def reserved_append submitted_append)
next
  case (crashed v p)
  then show ?thesis using inv by (auto simp: onceInv_def pending_def)
next
  case (stamp v p c)
  then show ?thesis
    using inv mset_held_update [OF stamp(1), of "Recorded v p c"]
    by (simp add: onceInv_def pending_def reserved_append submitted_append)
next
  case (send v p c)
  have "mset (concat (map held (status w))) =
      add_mset v (mset (concat (map held ((status w)[i := Sent v]))))"
    using mset_held_update [OF send(1), of "Sent v"] send(2) by simp
  then show ?thesis
    using inv by (simp add: send(3) onceInv_def pending_def reserved_append submitted_append)
next
  case (receive v lns outs)
  then show ?thesis
    using inv mset_held_update [OF receive(1), of "if k \<le> v then Returned else Waiting"]
    by (simp add: onceInv_def pending_def split: if_splits)
qed

lemma onceInv_run: "onceInv w \<Longrightarrow> onceInv (run k nc sched w)"
proof (induction sched arbitrary: w)
  case Nil
  then show ?case by simp
next
  case (Cons ie sched)
  then show ?case using onceInv_step [of w k nc "fst ie" "snd ie"] by simp
qed


lemma snoc_eq_split:
  assumes "xs @ [e] = pre @ m # post"
  shows "(post = [] \<and> pre = xs \<and> m = e) \<or> (\<exists>post'. post = post' @ [e] \<and> xs = pre @ m # post')"
  using assms by (cases post rule: rev_cases) auto

lemma stamp_first_snoc:
  assumes old: "\<forall>pre i v p c post. tr = pre @ Mutate i v p c # post \<longrightarrow> (\<exists>t. Stamp i v t \<in> set pre)"
    and new: "\<And>i v p c. e = Mutate i v p c \<Longrightarrow> \<exists>t. Stamp i v t \<in> set tr"
  shows "\<forall>pre i v p c post. tr @ [e] = pre @ Mutate i v p c # post \<longrightarrow> (\<exists>t. Stamp i v t \<in> set pre)"
proof (intro allI impI)
  fix pre i v p c post
  assume "tr @ [e] = pre @ Mutate i v p c # post"
  from snoc_eq_split [OF this] show "\<exists>t. Stamp i v t \<in> set pre"
  proof
    assume "post = [] \<and> pre = tr \<and> Mutate i v p c = e"
    then show ?thesis using new [of i v p c] by auto
  next
    assume "\<exists>post'. post = post' @ [e] \<and> tr = pre @ Mutate i v p c # post'"
    then show ?thesis using old by blast
  qed
qed

lemma ledgerInv_start: "ledgerInv (start n)"
  by (simp add: ledgerInv_def start_def)

lemma ledgerInv_next:
  assumes inv: "ledgerInv w"
    and st: "\<And>j v p c. j < length (status w') \<Longrightarrow> status w' ! j = Recorded v p c \<Longrightarrow>
        (j < length (status w) \<and> status w ! j = Recorded v p c) \<or> (\<exists>t. Stamp j v t \<in> set (trace w'))"
    and tr: "trace w' = trace w \<or>
        (\<exists>e. trace w' = trace w @ [e] \<and>
           (\<forall>i v p c. e = Mutate i v p c \<longrightarrow> (\<exists>t. Stamp i v t \<in> set (trace w))) \<and>
           (\<forall>i v t. e = Stamp i v t \<longrightarrow> insertTime w' (sint v) \<noteq> None))"
    and it: "\<And>x. insertTime w x \<noteq> None \<Longrightarrow> insertTime w' x \<noteq> None"
  shows "ledgerInv w'"
proof -
  from inv have
    rec: "\<And>j v p c. j < length (status w) \<Longrightarrow> status w ! j = Recorded v p c \<Longrightarrow>
        \<exists>t. Stamp j v t \<in> set (trace w)"
    and led: "\<And>j v t. Stamp j v t \<in> set (trace w) \<Longrightarrow> insertTime w (sint v) \<noteq> None"
    and ord: "\<forall>pre i v p c post. trace w = pre @ Mutate i v p c # post \<longrightarrow>
        (\<exists>t. Stamp i v t \<in> set pre)"
    unfolding ledgerInv_def by blast+
  have sub: "set (trace w) \<subseteq> set (trace w')" using tr by auto
  have 1: "\<exists>t. Stamp j v t \<in> set (trace w')"
    if "j < length (status w')" "status w' ! j = Recorded v p c" for j v p c
    using st [OF that] rec sub by blast
  have 2: "insertTime w' (sint v) \<noteq> None" if "Stamp j v t \<in> set (trace w')" for j v t
    using tr
  proof
    assume "trace w' = trace w"
    then show ?thesis using that led it by auto
  next
    assume "\<exists>e. trace w' = trace w @ [e] \<and>
           (\<forall>i v p c. e = Mutate i v p c \<longrightarrow> (\<exists>t. Stamp i v t \<in> set (trace w))) \<and>
           (\<forall>i v t. e = Stamp i v t \<longrightarrow> insertTime w' (sint v) \<noteq> None)"
    then obtain e where e: "trace w' = trace w @ [e]"
      and es: "\<forall>i v t. e = Stamp i v t \<longrightarrow> insertTime w' (sint v) \<noteq> None" by blast
    from that e have "Stamp j v t \<in> set (trace w) \<or> e = Stamp j v t" by auto
    then show ?thesis using led it es by blast
  qed
  have 3: "\<forall>pre i v p c post. trace w' = pre @ Mutate i v p c # post \<longrightarrow>
        (\<exists>t. Stamp i v t \<in> set pre)"
    using tr
  proof
    assume "trace w' = trace w"
    then show ?thesis using ord by simp
  next
    assume "\<exists>e. trace w' = trace w @ [e] \<and>
           (\<forall>i v p c. e = Mutate i v p c \<longrightarrow> (\<exists>t. Stamp i v t \<in> set (trace w))) \<and>
           (\<forall>i v t. e = Stamp i v t \<longrightarrow> insertTime w' (sint v) \<noteq> None)"
    then obtain e where e: "trace w' = trace w @ [e]"
      and em: "\<And>i v p c. e = Mutate i v p c \<Longrightarrow> \<exists>t. Stamp i v t \<in> set (trace w)" by blast
    show ?thesis unfolding e by (rule stamp_first_snoc [OF ord em])
  qed
  show ?thesis unfolding ledgerInv_def using 1 2 3 by blast
qed

lemma ledgerInv_step:
  assumes inv: "ledgerInv w"
  shows "ledgerInv (step k nc (i, e) w)"
proof (cases rule: step_cases [of k nc i e w])
  case idle
  then show ?thesis using inv by simp
next
  case reserve
  show ?thesis
  proof (rule ledgerInv_next [OF inv])
    fix j v p c
    assume "j < length (status (step k nc (i, e) w))" "status (step k nc (i, e) w) ! j = Recorded v p c"
    then show "(j < length (status w) \<and> status w ! j = Recorded v p c) \<or>
        (\<exists>t. Stamp j v t \<in> set (trace (step k nc (i, e) w)))"
      by (cases "j = i") (simp_all add: reserve(3))
  qed (simp_all add: reserve(3))
next
  case (crashed v p)
  then obtain lns outs where eq: "step k nc (i, e) w =
      w\<lparr>errLog := (errLog w)(i := errLog w i @ lns), printed := printed w @ outs, crash := Some p\<rparr>"
    by blast
  show ?thesis by (rule ledgerInv_next [OF inv]) (simp_all add: eq)
next
  case (stamp v p c)
  show ?thesis
  proof (rule ledgerInv_next [OF inv])
    fix j v' p' c'
    assume "j < length (status (step k nc (i, e) w))" "status (step k nc (i, e) w) ! j = Recorded v' p' c'"
    then show "(j < length (status w) \<and> status w ! j = Recorded v' p' c') \<or>
        (\<exists>t. Stamp j v' t \<in> set (trace (step k nc (i, e) w)))"
      by (cases "j = i") (auto simp: stamp(3))
  qed (simp_all add: stamp(3))
next
  case (send v p c)
  from inv have "\<exists>t. Stamp i v t \<in> set (trace w)"
    unfolding ledgerInv_def using send(1,2) by blast
  then have tr: "trace (step k nc (i, e) w) = trace w \<or>
        (\<exists>e'. trace (step k nc (i, e) w) = trace w @ [e'] \<and>
           (\<forall>i v p c. e' = Mutate i v p c \<longrightarrow> (\<exists>t. Stamp i v t \<in> set (trace w))) \<and>
           (\<forall>i' v t. e' = Stamp i' v t \<longrightarrow> insertTime (step k nc (i, e) w) (sint v) \<noteq> None))"
    by (simp add: send(3))
  show ?thesis
  proof (rule ledgerInv_next [OF inv _ tr])
    fix j v' p' c'
    assume "j < length (status (step k nc (i, e) w))" "status (step k nc (i, e) w) ! j = Recorded v' p' c'"
    then show "(j < length (status w) \<and> status w ! j = Recorded v' p' c') \<or>
        (\<exists>t. Stamp j v' t \<in> set (trace (step k nc (i, e) w)))"
      by (cases "j = i") (simp_all add: send(3))
  qed (simp_all add: send(3))
next
  case (receive v lns outs)
  show ?thesis
  proof (rule ledgerInv_next [OF inv])
    fix j v' p' c'
    assume "j < length (status (step k nc (i, e) w))" "status (step k nc (i, e) w) ! j = Recorded v' p' c'"
    then show "(j < length (status w) \<and> status w ! j = Recorded v' p' c') \<or>
        (\<exists>t. Stamp j v' t \<in> set (trace (step k nc (i, e) w)))"
      by (cases "j = i") (simp_all add: receive(3) split: if_splits)
  qed (simp_all add: receive(3))
qed

lemma ledgerInv_run: "ledgerInv w \<Longrightarrow> ledgerInv (run k nc sched w)"
proof (induction sched arbitrary: w)
  case Nil
  then show ?case by simp
next
  case (Cons ie sched)
  then show ?case using ledgerInv_step [of w k nc "fst ie" "snd ie"] by simp
qed

lemma reservedBy_append: "reservedBy i (xs @ ys) = reservedBy i xs @ reservedBy i ys"
  by (induction xs rule: reservedBy.induct) auto

lemma stopInv_start: "stopInv k (start n)"
  by (simp add: stopInv_def start_def)

lemma stopInv_next:
  assumes inv: "stopInv k w"
    and len: "length (status w') = length (status w)"
    and same: "\<And>j. j < length (status w) \<Longrightarrow>
        pastCeiling k (status w' ! j) = pastCeiling k (status w ! j)"
    and tr: "\<And>j. reservedBy j (trace w') = reservedBy j (trace w)"
  shows "stopInv k w'"
  using inv unfolding stopInv_def len tr by (simp add: same)

lemma stopInv_step:
  assumes inv: "stopInv k w"
  shows "stopInv k (step k nc (i, e) w)"
proof (cases rule: step_cases [of k nc i e w])
  case idle
  then show ?thesis using inv by simp
next
  case reserve
  show ?thesis
    unfolding stopInv_def
  proof (intro allI impI)
    fix j
    assume "j < length (status (step k nc (i, e) w))"
    then have j: "j < length (status w)" by (simp add: reserve(3))
    show "if pastCeiling k (status (step k nc (i, e) w) ! j)
         then \<exists>vs v. reservedBy j (trace (step k nc (i, e) w)) = vs @ [v] \<and> k \<le> v \<and> (\<forall>u \<in> set vs. u < k)
         else \<forall>u \<in> set (reservedBy j (trace (step k nc (i, e) w))). u < k"
    proof (cases "j = i")
      case True
      have old: "\<forall>u \<in> set (reservedBy i (trace w)). u < k"
        using inv reserve(1,2) unfolding stopInv_def by (auto split: if_splits)
      show ?thesis
        using old reserve(1) True
        by (auto simp: reserve(3) reservedBy_append not_le)
    next
      case False
      then show ?thesis
        using inv j unfolding stopInv_def by (simp add: reserve(3) reservedBy_append)
    qed
  qed
next
  case (crashed v p)
  then obtain lns outs where eq: "step k nc (i, e) w =
      w\<lparr>errLog := (errLog w)(i := errLog w i @ lns), printed := printed w @ outs, crash := Some p\<rparr>"
    by blast
  show ?thesis by (rule stopInv_next [OF inv]) (simp_all add: eq)
next
  case (stamp v p c)
  show ?thesis
  proof (rule stopInv_next [OF inv])
    fix j assume "j < length (status w)"
    then show "pastCeiling k (status (step k nc (i, e) w) ! j) = pastCeiling k (status w ! j)"
      using stamp(2) by (cases "j = i") (simp_all add: stamp(3))
  qed (simp_all add: stamp(3) reservedBy_append)
next
  case (send v p c)
  show ?thesis
  proof (rule stopInv_next [OF inv])
    fix j assume "j < length (status w)"
    then show "pastCeiling k (status (step k nc (i, e) w) ! j) = pastCeiling k (status w ! j)"
      using send(2) by (cases "j = i") (simp_all add: send(3))
  qed (simp_all add: send(3) reservedBy_append)
next
  case (receive v lns outs)
  show ?thesis
  proof (rule stopInv_next [OF inv])
    fix j assume "j < length (status w)"
    then show "pastCeiling k (status (step k nc (i, e) w) ! j) = pastCeiling k (status w ! j)"
      using receive(2) by (cases "j = i") (simp_all add: receive(3))
  qed (simp_all add: receive(3))
qed

lemma stopInv_run: "stopInv k w \<Longrightarrow> stopInv k (run k nc sched w)"
proof (induction sched arbitrary: w)
  case Nil
  then show ?case by simp
next
  case (Cons ie sched)
  then show ?case using stopInv_step [of k w nc "fst ie" "snd ie"] by simp
qed

lemma length_status_step: "length (status (step k nc (i, e) w)) = length (status w)"
  by (cases rule: step_cases [of k nc i e w]) auto

lemma length_status_run: "length (status (run k nc sched w)) = length (status w)"
proof (induction sched arbitrary: w)
  case Nil
  then show ?case by simp
next
  case (Cons ie sched)
  then show ?case using length_status_step [of k nc "fst ie" "snd ie" w] by simp
qed

lemma complete_run_stops:
  assumes fin: "\<forall>st \<in> set (status (run k nc sched (start n))). st = Returned"
    and i: "i < n"
  shows "\<exists>vs v. reservedBy i (trace (run k nc sched (start n))) = vs @ [v] \<and> k \<le> v \<and>
     (\<forall>u \<in> set vs. u < k)"
proof -
  let ?w = "run k nc sched (start n)"
  have inv: "stopInv k ?w" by (rule stopInv_run [OF stopInv_start])
  have len: "length (status ?w) = n"
    by (simp add: length_status_run start_def)
  then have "status ?w ! i = Returned" using fin i by simp
  then have "pastCeiling k (status ?w ! i)" by simp
  then show ?thesis using inv i len unfolding stopInv_def by auto
qed

lemma strict_sorted_unat:
  fixes xs :: "64 word list"
  assumes "map unat xs = [0..<n]"
  shows "sorted_wrt (<) xs \<and> distinct xs"
proof -
  have "sorted_wrt (<) (map unat xs)" using assms by simp
  then have s: "sorted_wrt (\<lambda>a b. unat a < unat b) xs" by (simp add: sorted_wrt_map)
  have "sorted_wrt (<) xs"
    by (rule sorted_wrt_mono_rel [OF _ s]) (simp add: word_less_nat_alt)
  moreover have "distinct (map unat xs)" using assms by simp
  then have "distinct xs" by (simp add: distinct_map)
  ultimately show ?thesis by simp
qed

lemma run_counterInv: "unat k + n < 2 ^ 64 \<Longrightarrow> counterInv k n (run k nc sched (start n))"
  by (rule counterInv_run [OF counterInv_start])

lemma complete_run_count:
  assumes bound: "unat k + n < 2 ^ 64" and n: "0 < n"
    and fin: "\<forall>st \<in> set (status (run k nc sched (start n))). st = Returned"
  shows "unat (count (run k nc sched (start n))) = unat k + n"
proof -
  let ?w = "run k nc sched (start n)"
  have inv: "counterInv k n ?w" by (rule run_counterInv [OF bound])
  have "filter (pastCeiling k) (status ?w) = status ?w"
    using fin by (intro filter_True) auto
  then have "n + unat k = max (unat (count ?w)) (unat k)"
    using inv by (simp add: counterInv_def)
  then show ?thesis using n by (simp add: max_def split: if_splits)
qed

lemma complete_run_reserved:
  assumes bound: "unat k + n < 2 ^ 64" and n: "0 < n"
    and fin: "\<forall>st \<in> set (status (run k nc sched (start n))). st = Returned"
  shows "map unat (reserved (trace (run k nc sched (start n)))) = [0..<unat k + n]"
  using run_counterInv [OF bound, of nc sched] complete_run_count [OF assms]
  by (simp add: counterInv_def)

lemma run_onceInv: "onceInv (run k nc sched (start n))"
  by (rule onceInv_run [OF onceInv_start])

lemma complete_run_submitted:
  assumes fin: "\<forall>st \<in> set (status (run k nc sched (start n))). st = Returned"
  shows "mset (submitted (trace (run k nc sched (start n)))) =
         mset (reserved (trace (run k nc sched (start n))))"
proof -
  let ?w = "run k nc sched (start n)"
  have "concat (map held (status ?w)) = []"
    using fin by (auto simp: concat_eq_Nil_conv)
  then have "pending ?w = []" by (simp add: pending_def)
  then show ?thesis using run_onceInv [of k nc sched n] by (simp add: onceInv_def)
qed


lemma stamped_append: "stamped (xs @ ys) = stamped xs @ stamped ys"
  by (induction xs rule: stamped.induct) auto

lemma Stamp_in_stamped: "Stamp i v t \<in> set tr \<Longrightarrow> v \<in> set (stamped tr)"
  by (induction tr rule: stamped.induct) auto

lemma mset_unstamped_update:
  "i < length xs \<Longrightarrow>
   mset (concat (map unstamped (xs[i := y]))) + mset (unstamped (xs ! i)) =
   mset (concat (map unstamped xs)) + mset (unstamped y)"
proof (induction xs arbitrary: i)
  case Nil
  then show ?case by simp
next
  case (Cons x xs)
  then show ?case by (cases i) auto
qed

lemma stampInv_start: "stampInv (start n)"
  by (simp add: stampInv_def start_def)

lemma stampInv_step:
  assumes inv: "stampInv w" and dist: "distinct (reserved (trace w))"
  shows "stampInv (step k nc (i, e) w)"
proof -
  from inv have led: "\<And>j v t. Stamp j v t \<in> set (trace w) \<Longrightarrow> insertTime w (sint v) = Some t"
    and ms: "mset (concat (map unstamped (status w))) + mset (stamped (trace w)) =
       mset (reserved (trace w))"
    unfolding stampInv_def by blast+
  show ?thesis
  proof (cases rule: step_cases [of k nc i e w])
    case idle
    then show ?thesis using inv by simp
  next
    case reserve
    have "mset (concat (map unstamped ((status w)[i := HasValue (count w)]))) =
        add_mset (count w) (mset (concat (map unstamped (status w))))"
      using mset_unstamped_update [OF reserve(1), of "HasValue (count w)"] reserve(2) by simp
    then show ?thesis
      unfolding stampInv_def reserve(3)
      using led ms by (auto simp: reserved_append stamped_append)
  next
    case (crashed v p)
    then obtain lns outs where eq: "step k nc (i, e) w =
        w\<lparr>errLog := (errLog w)(i := errLog w i @ lns), printed := printed w @ outs, crash := Some p\<rparr>"
      by blast
    show ?thesis unfolding stampInv_def eq using led ms by simp
  next
    case (stamp v p c)
    have upd: "mset (concat (map unstamped (status w))) =
        add_mset v (mset (concat (map unstamped ((status w)[i := Recorded v p c]))))"
      using mset_unstamped_update [OF stamp(1), of "Recorded v p c"] stamp(2) by simp
    have fresh: "v \<notin> set (stamped (trace w))"
    proof
      assume "v \<in> set (stamped (trace w))"
      then have "v \<in># mset (stamped (trace w))" by simp
      then have "Multiset.count (mset (stamped (trace w))) v \<ge> 1"
        by (simp only: count_greater_eq_one_iff)
      moreover have "Multiset.count (mset (concat (map unstamped (status w)))) v \<ge> 1"
        unfolding upd by simp
      moreover have "Multiset.count (mset (concat (map unstamped (status w)))) v +
          Multiset.count (mset (stamped (trace w))) v = Multiset.count (mset (reserved (trace w))) v"
        by (simp only: ms [symmetric] count_union)
      ultimately have "Multiset.count (mset (reserved (trace w))) v \<ge> 2"
        by linarith
      moreover have "Multiset.count (mset (reserved (trace w))) v \<le> 1"
        using dist by (simp add: distinct_count_atmost_1)
      ultimately show False by simp
    qed
    have keep: "insertTime (step k nc (i, e) w) (sint u) = Some t"
      if "Stamp j u t \<in> set (trace w)" for j u t
    proof -
      have "u \<in> set (stamped (trace w))" using that by (rule Stamp_in_stamped)
      then have "u \<noteq> v" using fresh by auto
      then have "sint u \<noteq> sint v" using signed_word_eqI by blast
      then show ?thesis using led [OF that] by (simp add: stamp(3))
    qed
    show ?thesis
      unfolding stampInv_def
    proof (intro conjI allI impI)
      fix j u t
      assume "Stamp j u t \<in> set (trace (step k nc (i, e) w))"
      then have "Stamp j u t \<in> set (trace w) \<or> (j = i \<and> u = v \<and> t = now e)"
        by (auto simp: stamp(3))
      then show "insertTime (step k nc (i, e) w) (sint u) = Some t"
      proof
        assume "Stamp j u t \<in> set (trace w)"
        then show ?thesis by (rule keep)
      next
        assume "j = i \<and> u = v \<and> t = now e"
        then show ?thesis by (simp add: stamp(3))
      qed
    next
      show "mset (concat (map unstamped (status (step k nc (i, e) w)))) +
          mset (stamped (trace (step k nc (i, e) w))) = mset (reserved (trace (step k nc (i, e) w)))"
        using ms upd by (simp add: stamp(3) reserved_append stamped_append)
    qed
  next
    case (send v p c)
    have "mset (concat (map unstamped ((status w)[i := Sent v]))) =
        mset (concat (map unstamped (status w)))"
      using mset_unstamped_update [OF send(1), of "Sent v"] send(2) by simp
    then show ?thesis
      unfolding stampInv_def send(3)
      using led ms by (auto simp: reserved_append stamped_append)
  next
    case (receive v lns outs)
    have "mset (concat (map unstamped ((status w)[i := if k \<le> v then Returned else Waiting]))) =
        mset (concat (map unstamped (status w)))"
      using mset_unstamped_update [OF receive(1), of "if k \<le> v then Returned else Waiting"]
        receive(2) by (simp split: if_splits)
    then show ?thesis
      unfolding stampInv_def receive(3)
      using led ms by auto
  qed
qed

lemma stampInv_run:
  "counterInv k n w \<Longrightarrow> unat k + n < 2 ^ 64 \<Longrightarrow> stampInv w \<Longrightarrow> stampInv (run k nc sched w)"
proof (induction sched arbitrary: w)
  case Nil
  then show ?case by simp
next
  case (Cons ie sched)
  have d: "distinct (reserved (trace w))"
    using Cons.prems(1) strict_sorted_unat by (auto simp: counterInv_def)
  have "counterInv k n (step k nc (fst ie, snd ie) w)"
    by (rule counterInv_step [OF Cons.prems(1,2)])
  moreover have "stampInv (step k nc (fst ie, snd ie) w)"
    by (rule stampInv_step [OF Cons.prems(3) d])
  ultimately show ?case using Cons.IH Cons.prems(2) by simp
qed

lemma stamp_from_step:
  assumes "Stamp i v t \<in> set (trace (step k nc (j, e) w))"
  shows "Stamp i v t \<in> set (trace w) \<or> (j = i \<and> now e = t)"
  using assms by (cases rule: step_cases [of k nc j e w]) auto

lemma stamp_from_schedule:
  "Stamp i v t \<in> set (trace (run k nc sched w)) \<Longrightarrow>
   Stamp i v t \<in> set (trace w) \<or> (\<exists>e. (i, e) \<in> set sched \<and> now e = t)"
proof (induction sched arbitrary: w)
  case Nil
  then show ?case by simp
next
  case (Cons ie sched)
  from Cons.IH [of "step k nc ie w"] Cons.prems
  have "Stamp i v t \<in> set (trace (step k nc ie w)) \<or> (\<exists>e. (i, e) \<in> set sched \<and> now e = t)"
    by simp
  then show ?case
  proof
    assume "Stamp i v t \<in> set (trace (step k nc ie w))"
    then have "Stamp i v t \<in> set (trace (step k nc (fst ie, snd ie) w))" by simp
    from stamp_from_step [OF this] show ?thesis by (cases ie) auto
  next
    assume "\<exists>e. (i, e) \<in> set sched \<and> now e = t"
    then show ?thesis by auto
  qed
qed

lemma handleReply_lines:
  assumes "rpcError r \<noteq> None \<or> unmarshalError r \<noteq> None \<or> length (echoed r) \<noteq> 1"
  shows "fst (fst (handleReply v r True)) \<noteq> [] \<and>
     (\<forall>err. rpcError r = Some err \<longrightarrow> ErrorAddingEvent err \<in> set (fst (fst (handleReply v r True)))) \<and>
     (\<forall>err. unmarshalError r = Some err \<longrightarrow>
        ErrorUnmarshaling err \<in> set (fst (fst (handleReply v r True)))) \<and>
     (length (echoed r) \<noteq> 1 \<longrightarrow> FailedToAddEvent v \<in> set (fst (fst (handleReply v r True))))"
  using assms
  by (auto simp: handleReply_def writeString_def Let_def split: option.splits)

lemma handleReply_returns:
  assumes "length (echoed r) = 1 \<longrightarrow> echoed r ! 0 = v"
  shows "snd (handleReply v r ok) = Inr v"
  using assms by (auto simp: handleReply_def Let_def)

lemma step_receive:
  assumes "i < length (status w)" "crash w = None" "status w ! i = Sent v"
    and "snd (handleReply v (answer e) (logOk e)) = Inr v"
  shows "step k nc (i, e) w =
     w\<lparr>errLog := (errLog w)(i := errLog w i @ fst (fst (handleReply v (answer e) (logOk e)))),
       printed := printed w @ snd (fst (handleReply v (answer e) (logOk e))),
       status := (status w)[i := if v \<ge> k then Returned else Waiting]\<rparr>"
  using assms by (cases "handleReply v (answer e) (logOk e)") (auto simp: step_def)

lemma count_list_once:
  assumes "mset ps + mset ss = mset rs" "distinct rs"
  shows "count_list ss v \<le> 1" and "v \<in> set rs \<Longrightarrow> v \<notin> set ps \<Longrightarrow> count_list ss v = 1"
proof -
  have c: "count_list ps v + count_list ss v = count_list rs v"
    using arg_cong [OF assms(1), of "\<lambda>m. Multiset.count m v"] by (simp add: count_mset)
  have r: "count_list rs v = (if v \<in> set rs then 1 else 0)"
    using assms(2) by (simp add: distinct_count_atmost_1 flip: count_mset)
  show "count_list ss v \<le> 1" using c r by (simp split: if_splits)
  show "count_list ss v = 1" if "v \<in> set rs" "v \<notin> set ps"
    using c r that by (simp add: count_list_0_iff)
qed

subsection \<open>The reservations\<close>

text \<open>
  C1. In every run, of any number \<open>n\<close> of workers under any schedule, the values that the
  locked read-and-increment of \<^verbatim>\<open>addEvent\<close> hands out are strictly increasing in the order
  in which they are issued, and so no value is handed out twice. The counter is a
  \<^verbatim>\<open>uint64\<close>; with the ceiling \<open>k\<close> and \<open>n\<close> workers it never passes \<open>k + n\<close>, which is
  assumed to be below \<open>2 ^ 64\<close>.
\<close>

theorem reserve_strictly_increasing:
  assumes "unat k + n < 2 ^ 64"
  shows "sorted_wrt (<) (reserved (trace (run k nc sched (start n)))) \<and>
         distinct (reserved (trace (run k nc sched (start n))))"
  using run_counterInv [OF assms, of nc sched] strict_sorted_unat
  by (simp add: counterInv_def)

theorem reserve_strictly_increasing_witness:
  "unat MAX_EVENTS + WORKERS < 2 ^ 64 \<and>
   reserved (trace (run MAX_EVENTS 3 interleaved (start WORKERS))) = [0, 1, 2, 3, 4] \<and>
   sorted_wrt (<) (reserved (trace (run MAX_EVENTS 3 interleaved (start WORKERS)))) \<and>
   distinct (reserved (trace (run MAX_EVENTS 3 interleaved (start WORKERS))))"
proof -
  have b: "unat MAX_EVENTS + WORKERS < 2 ^ 64" by (simp add: MAX_EVENTS_def WORKERS_def)
  have r: "reserved (trace (run MAX_EVENTS 3 interleaved (start WORKERS))) = [0, 1, 2, 3, 4]"
    unfolding interleaved_def by code_simp
  show ?thesis using reserve_strictly_increasing [OF b, of 3 interleaved] b r by simp
qed


text \<open>
  C2, as the code has it. \<^verbatim>\<open>addEvent\<close> reserves and writes before \<^verbatim>\<open>runEventSimulator\<close>
  compares the value with the ceiling, so each worker stops only after it has reserved and
  sent a value that has reached the ceiling. In a run that ends with all \<open>n\<close> workers
  returned, the values reserved are exactly \<open>0, \<dots>, k + n - 1\<close> in this order, the values
  sent to the backend are the same values, each once, and every worker has reserved values
  below the ceiling and then, last, one value that has reached it.
\<close>

theorem workers_stop_after_ceiling:
  assumes "unat k + n < 2 ^ 64" and "0 < n"
    and "\<forall>st \<in> set (status (run k nc sched (start n))). st = Returned"
  shows "map unat (reserved (trace (run k nc sched (start n)))) = [0..<unat k + n] \<and>
         mset (submitted (trace (run k nc sched (start n)))) =
           mset (reserved (trace (run k nc sched (start n)))) \<and>
         (\<forall>i. i < n \<longrightarrow>
            (\<exists>vs v. reservedBy i (trace (run k nc sched (start n))) = vs @ [v] \<and> k \<le> v \<and>
               (\<forall>u \<in> set vs. u < k)))"
  using complete_run_reserved [OF assms] complete_run_submitted [OF assms(3)]
    complete_run_stops [OF assms(3)] by simp

theorem workers_stop_after_ceiling_witness:
  "unat (2 :: 64 word) + 2 < 2 ^ 64 \<and> (0 :: nat) < 2 \<and>
   status (run 2 3 twoWorkers (start 2)) = [Returned, Returned] \<and>
   map unat (reserved (trace (run 2 3 twoWorkers (start 2)))) = [0..<unat (2 :: 64 word) + 2] \<and>
   mset (submitted (trace (run 2 3 twoWorkers (start 2)))) =
     mset (reserved (trace (run 2 3 twoWorkers (start 2)))) \<and>
   reservedBy 0 (trace (run 2 3 twoWorkers (start 2))) = [0, 3] \<and>
   reservedBy 1 (trace (run 2 3 twoWorkers (start 2))) = [1, 2]"
proof -
  have b: "unat (2 :: 64 word) + 2 < 2 ^ 64" by simp
  have r0: "reservedBy 0 (trace (run 2 3 twoWorkers (start 2))) = [0, 3]"
    unfolding twoWorkers_def by code_simp
  have r1: "reservedBy 1 (trace (run 2 3 twoWorkers (start 2))) = [1, 2]"
    unfolding twoWorkers_def by code_simp
  have st: "status (run 2 3 twoWorkers (start 2)) = [Returned, Returned]"
    unfolding twoWorkers_def by code_simp
  have fin: "\<forall>st \<in> set (status (run 2 3 twoWorkers (start 2))). st = Returned"
    unfolding st by simp
  show ?thesis
    using workers_stop_after_ceiling [OF b _ fin] b st r0 r1 by simp
qed

text \<open>
  C2 as the specification states it fails: with the ceiling 2 and one worker, the run to
  the end reserves and sends the values 0, 1 and 2, and 2 is not below the ceiling.
\<close>

theorem ceiling_value_is_reserved_and_submitted:
  "status (run 2 3 oneWorker (start 1)) = [Returned] \<and>
   reserved (trace (run 2 3 oneWorker (start 1))) = [0, 1, 2] \<and>
   submitted (trace (run 2 3 oneWorker (start 1))) = [0, 1, 2] \<and>
   set (map unat (reserved (trace (run 2 3 oneWorker (start 1))))) \<noteq> {0..<unat (2 :: 64 word)}"
proof -
  have r: "reserved (trace (run 2 3 oneWorker (start 1))) = [0, 1, 2]"
    unfolding oneWorker_def by code_simp
  have "status (run 2 3 oneWorker (start 1)) = [Returned]"
    unfolding oneWorker_def by code_simp
  moreover have "submitted (trace (run 2 3 oneWorker (start 1))) = [0, 1, 2]"
    unfolding oneWorker_def by code_simp
  moreover have "set (map unat [0, 1, 2 :: 64 word]) \<noteq> {0..<unat (2 :: 64 word)}"
    by auto
  ultimately show ?thesis using r by simp
qed

text \<open>Scenario E: five workers and the ceiling 100000 reserve \<open>0, \<dots>, 100004\<close>.\<close>

lemma scenario_E:
  assumes "\<forall>st \<in> set (status (run MAX_EVENTS nc sched (start WORKERS))). st = Returned"
  shows "map unat (reserved (trace (run MAX_EVENTS nc sched (start WORKERS)))) = [0..<100005]"
proof -
  have b: "unat MAX_EVENTS + WORKERS < 2 ^ 64" by (simp add: MAX_EVENTS_def WORKERS_def)
  have "unat MAX_EVENTS + WORKERS = 100005" by (simp add: MAX_EVENTS_def WORKERS_def)
  then show ?thesis
    using complete_run_reserved [OF b _ assms] by (simp add: WORKERS_def)
qed

subsection \<open>One write for each value, after its entry in the ledger\<close>

text \<open>
  C7, as the code has it. In every run a value is sent to the backend at most once, and
  exactly once as soon as no worker holds it any more. \<^verbatim>\<open>addEvent\<close> does not return on an
  error of the call or of decoding: it appends the line and goes on to look at the records.
  When the reply comes with such an error or with not exactly one record, and is not one
  record with another value, the lines for the failure are appended to the log of this
  worker (the log being writable), nothing is sent or reserved in this step, and the worker
  is back at its ticker, or has returned when the value has reached the ceiling. When the
  reply has one record with another value, also after an error, the lines are appended and
  the process panics; nothing is sent or reserved then or later.
\<close>

theorem one_write_attempt_per_value:
  assumes bound: "unat k + n < 2 ^ 64"
  shows "count_list (submitted (trace (run k nc sched (start n)))) v \<le> 1 \<and>
     (v \<in> set (reserved (trace (run k nc sched (start n)))) \<and>
      v \<notin> set (pending (run k nc sched (start n))) \<longrightarrow>
        count_list (submitted (trace (run k nc sched (start n)))) v = 1) \<and>
     (i < length (status w) \<and> crash w = None \<and> status w ! i = Sent u \<and> logOk e \<and>
      (rpcError (answer e) \<noteq> None \<or> unmarshalError (answer e) \<noteq> None \<or>
       length (echoed (answer e)) \<noteq> 1) \<and>
      (length (echoed (answer e)) = 1 \<longrightarrow> echoed (answer e) ! 0 = u) \<longrightarrow>
        (\<exists>lines. lines \<noteq> [] \<and>
           errLog (step k nc (i, e) w) i = errLog w i @ lines \<and>
           (\<forall>err. rpcError (answer e) = Some err \<longrightarrow> ErrorAddingEvent err \<in> set lines) \<and>
           (\<forall>err. unmarshalError (answer e) = Some err \<longrightarrow> ErrorUnmarshaling err \<in> set lines) \<and>
           (length (echoed (answer e)) \<noteq> 1 \<longrightarrow> FailedToAddEvent u \<in> set lines)) \<and>
        status (step k nc (i, e) w) ! i = (if k \<le> u then Returned else Waiting) \<and>
        crash (step k nc (i, e) w) = None \<and>
        trace (step k nc (i, e) w) = trace w \<and>
        count (step k nc (i, e) w) = count w) \<and>
     (i < length (status w) \<and> crash w = None \<and> status w ! i = Sent u \<and> logOk e \<and>
      length (echoed (answer e)) = 1 \<and> echoed (answer e) ! 0 \<noteq> u \<longrightarrow>
        (\<exists>lines. errLog (step k nc (i, e) w) i = errLog w i @ lines \<and>
           ValueMismatch u (echoed (answer e) ! 0) \<in> set lines \<and>
           (\<forall>err. rpcError (answer e) = Some err \<longrightarrow> ErrorAddingEvent err \<in> set lines) \<and>
           (\<forall>err. unmarshalError (answer e) = Some err \<longrightarrow> ErrorUnmarshaling err \<in> set lines)) \<and>
        crash (step k nc (i, e) w) = Some (EventValueMismatch u (echoed (answer e) ! 0)) \<and>
        status (step k nc (i, e) w) = status w \<and>
        trace (step k nc (i, e) w) = trace w \<and>
        count (step k nc (i, e) w) = count w) \<and>
     (crash w \<noteq> None \<longrightarrow> step k nc (i, e) w = w)"
proof (intro conjI impI)
  let ?w = "run k nc sched (start n)"
  have once: "mset (pending ?w) + mset (submitted (trace ?w)) = mset (reserved (trace ?w))"
    using run_onceInv [of k nc sched n] by (simp add: onceInv_def)
  have "map unat (reserved (trace ?w)) = [0..<unat (count ?w)]"
    using run_counterInv [OF bound, of nc sched] by (simp add: counterInv_def)
  then have dist: "distinct (reserved (trace ?w))"
    using strict_sorted_unat by blast
  show "count_list (submitted (trace ?w)) v \<le> 1"
    by (rule count_list_once(1) [OF once dist])
  show "count_list (submitted (trace ?w)) v = 1"
    if "v \<in> set (reserved (trace ?w)) \<and> v \<notin> set (pending ?w)"
    using count_list_once(2) [OF once dist] that by blast
next
  assume a: "i < length (status w) \<and> crash w = None \<and> status w ! i = Sent u \<and> logOk e \<and>
      (rpcError (answer e) \<noteq> None \<or> unmarshalError (answer e) \<noteq> None \<or>
       length (echoed (answer e)) \<noteq> 1) \<and>
      (length (echoed (answer e)) = 1 \<longrightarrow> echoed (answer e) ! 0 = u)"
  then have ret: "snd (handleReply u (answer e) (logOk e)) = Inr u"
    by (intro handleReply_returns) simp
  have st: "step k nc (i, e) w =
     w\<lparr>errLog := (errLog w)(i := errLog w i @ fst (fst (handleReply u (answer e) (logOk e)))),
       printed := printed w @ snd (fst (handleReply u (answer e) (logOk e))),
       status := (status w)[i := if u \<ge> k then Returned else Waiting]\<rparr>"
    using a ret by (intro step_receive) simp_all
  have ok: "logOk e = True" using a by simp
  show "\<exists>lines. lines \<noteq> [] \<and>
           errLog (step k nc (i, e) w) i = errLog w i @ lines \<and>
           (\<forall>err. rpcError (answer e) = Some err \<longrightarrow> ErrorAddingEvent err \<in> set lines) \<and>
           (\<forall>err. unmarshalError (answer e) = Some err \<longrightarrow> ErrorUnmarshaling err \<in> set lines) \<and>
           (length (echoed (answer e)) \<noteq> 1 \<longrightarrow> FailedToAddEvent u \<in> set lines)"
    using handleReply_lines [of "answer e" u] a
    by (intro exI [of _ "fst (fst (handleReply u (answer e) True))"]) (simp add: st ok)
  show "status (step k nc (i, e) w) ! i = (if k \<le> u then Returned else Waiting)"
    using a by (simp add: st)
  show "crash (step k nc (i, e) w) = None" using a by (simp add: st)
  show "trace (step k nc (i, e) w) = trace w" by (simp add: st)
  show "count (step k nc (i, e) w) = count w" by (simp add: st)
next
  assume a: "i < length (status w) \<and> crash w = None \<and> status w ! i = Sent u \<and> logOk e \<and>
      length (echoed (answer e)) = 1 \<and> echoed (answer e) ! 0 \<noteq> u"
  have ok: "logOk e = True" using a by simp
  have res: "snd (handleReply u (answer e) True) = Inl (EventValueMismatch u (echoed (answer e) ! 0))"
    using a by (simp add: handleReply_def Let_def)
  have st: "step k nc (i, e) w =
     w\<lparr>errLog := (errLog w)(i := errLog w i @ fst (fst (handleReply u (answer e) True))),
       printed := printed w @ snd (fst (handleReply u (answer e) True)),
       crash := Some (EventValueMismatch u (echoed (answer e) ! 0))\<rparr>"
    using a res by (cases "handleReply u (answer e) True") (auto simp: step_def ok)
  have ln: "ValueMismatch u (echoed (answer e) ! 0) \<in> set (fst (fst (handleReply u (answer e) True))) \<and>
      (\<forall>err. rpcError (answer e) = Some err \<longrightarrow>
         ErrorAddingEvent err \<in> set (fst (fst (handleReply u (answer e) True)))) \<and>
      (\<forall>err. unmarshalError (answer e) = Some err \<longrightarrow>
         ErrorUnmarshaling err \<in> set (fst (fst (handleReply u (answer e) True))))"
    using a by (auto simp: handleReply_def writeString_def Let_def split: option.splits)
  show "\<exists>lines. errLog (step k nc (i, e) w) i = errLog w i @ lines \<and>
           ValueMismatch u (echoed (answer e) ! 0) \<in> set lines \<and>
           (\<forall>err. rpcError (answer e) = Some err \<longrightarrow> ErrorAddingEvent err \<in> set lines) \<and>
           (\<forall>err. unmarshalError (answer e) = Some err \<longrightarrow> ErrorUnmarshaling err \<in> set lines)"
    using ln by (intro exI [of _ "fst (fst (handleReply u (answer e) True))"]) (simp add: st)
  show "crash (step k nc (i, e) w) = Some (EventValueMismatch u (echoed (answer e) ! 0))"
    by (simp add: st)
  show "status (step k nc (i, e) w) = status w" by (simp add: st)
  show "trace (step k nc (i, e) w) = trace w" by (simp add: st)
  show "count (step k nc (i, e) w) = count w" by (simp add: st)
next
  assume "crash w \<noteq> None"
  then show "step k nc (i, e) w = w" by (simp add: step_def)
qed

theorem one_write_attempt_per_value_witness:
  "unat MAX_EVENTS + 1 < 2 ^ 64 \<and>
   0 \<in> set (reserved (trace (run MAX_EVENTS 3 lostWrite (start 1)))) \<and>
   0 \<notin> set (pending (run MAX_EVENTS 3 lostWrite (start 1))) \<and>
   count_list (submitted (trace (run MAX_EVENTS 3 lostWrite (start 1)))) 0 = 1 \<and>
   status (run MAX_EVENTS 3 (take 3 lostWrite) (start 1)) ! 0 = Sent 0 \<and>
   crash (run MAX_EVENTS 3 (take 3 lostWrite) (start 1)) = None \<and>
   logOk failing \<and> rpcError (answer failing) \<noteq> None \<and> length (echoed (answer failing)) \<noteq> 1 \<and>
   errLog (step MAX_EVENTS 3 (0, failing) (run MAX_EVENTS 3 (take 3 lostWrite) (start 1))) 0 =
     [ErrorAddingEvent ''timeout'', ErrorUnmarshaling ''unexpected end of JSON input'',
      FailedToAddEvent 0] \<and>
   status (step MAX_EVENTS 3 (0, failing) (run MAX_EVENTS 3 (take 3 lostWrite) (start 1))) ! 0 = Waiting \<and>
   crash (step MAX_EVENTS 3 (0, failing) (run MAX_EVENTS 3 (take 3 lostWrite) (start 1))) = None \<and>
   status (run MAX_EVENTS 3 (take 3 fatalReply) (start 1)) ! 0 = Sent 0 \<and>
   length (echoed (answer mismatching)) = 1 \<and> echoed (answer mismatching) ! 0 \<noteq> (0 :: 64 word) \<and>
   crash (step MAX_EVENTS 3 (0, mismatching) (run MAX_EVENTS 3 (take 3 fatalReply) (start 1))) =
     Some (EventValueMismatch 0 7) \<and>
   trace (step MAX_EVENTS 3 (0, mismatching) (run MAX_EVENTS 3 (take 3 fatalReply) (start 1))) =
     trace (run MAX_EVENTS 3 (take 3 fatalReply) (start 1))"
proof -
  let ?f3 = "run MAX_EVENTS 3 (take 3 fatalReply) (start 1)"
  have fs: "status ?f3 = [Sent 0]" unfolding fatalReply_def mismatching_def by code_simp
  have fc: "crash ?f3 = None" unfolding fatalReply_def mismatching_def by code_simp
  have fm: "logOk mismatching \<and> length (echoed (answer mismatching)) = 1 \<and>
      echoed (answer mismatching) ! 0 = (7 :: 64 word)"
    by (simp add: mismatching_def)
  let ?w = "run MAX_EVENTS 3 lostWrite (start 1)"
  let ?w3 = "run MAX_EVENTS 3 (take 3 lostWrite) (start 1)"
  have b: "unat MAX_EVENTS + 1 < 2 ^ 64" by (simp add: MAX_EVENTS_def)
  have r: "reserved (trace ?w) = [0, 1]" unfolding lostWrite_def failing_def by code_simp
  have p: "pending ?w = [1]" unfolding lostWrite_def failing_def by code_simp
  have s3: "status ?w3 = [Sent 0]" unfolding lostWrite_def failing_def by code_simp
  have c3: "crash ?w3 = None" unfolding lostWrite_def failing_def by code_simp
  have lg: "errLog (step MAX_EVENTS 3 (0, failing) ?w3) 0 =
     [ErrorAddingEvent ''timeout'', ErrorUnmarshaling ''unexpected end of JSON input'',
      FailedToAddEvent 0]" unfolding lostWrite_def failing_def by code_simp
  have f: "logOk failing \<and> rpcError (answer failing) \<noteq> None \<and> length (echoed (answer failing)) \<noteq> 1"
    by (simp add: failing_def)
  have lt: "\<not> MAX_EVENTS \<le> (0 :: 64 word)" by (simp add: MAX_EVENTS_def)
  have fatal: "crash (step MAX_EVENTS 3 (0, mismatching) ?f3) = Some (EventValueMismatch 0 7) \<and>
      trace (step MAX_EVENTS 3 (0, mismatching) ?f3) = trace ?f3"
    using one_write_attempt_per_value [OF b, of 3 lostWrite 0 0 ?f3 0 mismatching] fs fc fm
    by simp
  have lost: "count_list (submitted (trace ?w)) 0 = 1 \<and>
      status (step MAX_EVENTS 3 (0, failing) ?w3) ! 0 = Waiting \<and>
      crash (step MAX_EVENTS 3 (0, failing) ?w3) = None"
    using one_write_attempt_per_value [OF b, of 3 lostWrite 0 0 ?w3 0 failing] b r p s3 c3 f lt
    by simp
  show ?thesis using fatal lost b r p s3 c3 lg f fs fm by simp
qed

text \<open>
  C7 as the specification states it fails: the call returns an error together with one
  record of the value 7 for the write of the value 0. The worker logs the error and the
  mismatch and panics; it does not go on to its next tick.
\<close>

theorem rpc_error_with_other_value_panics:
  "rpcError (answer mismatching) \<noteq> None \<and>
   status (run MAX_EVENTS 3 (take 3 fatalReply) (start 1)) = [Sent 0] \<and>
   crash (run MAX_EVENTS 3 (take 3 fatalReply) (start 1)) = None \<and>
   crash (step MAX_EVENTS 3 (0, mismatching) (run MAX_EVENTS 3 (take 3 fatalReply) (start 1))) =
     Some (EventValueMismatch 0 7) \<and>
   crash (run MAX_EVENTS 3 fatalReply (start 1)) = Some (EventValueMismatch 0 7) \<and>
   status (run MAX_EVENTS 3 fatalReply (start 1)) = [Sent 0] \<and>
   errLog (run MAX_EVENTS 3 fatalReply (start 1)) 0 =
     [ErrorAddingEvent ''timeout'', ValueMismatch 0 7] \<and>
   reserved (trace (run MAX_EVENTS 3 fatalReply (start 1))) = [0]"
proof -
  have "rpcError (answer mismatching) \<noteq> None" by (simp add: mismatching_def)
  moreover have "status (run MAX_EVENTS 3 (take 3 fatalReply) (start 1)) = [Sent 0]"
    unfolding fatalReply_def mismatching_def by code_simp
  moreover have "crash (run MAX_EVENTS 3 (take 3 fatalReply) (start 1)) = None"
    unfolding fatalReply_def mismatching_def by code_simp
  moreover have "crash (step MAX_EVENTS 3 (0, mismatching)
      (run MAX_EVENTS 3 (take 3 fatalReply) (start 1))) = Some (EventValueMismatch 0 7)"
    unfolding fatalReply_def mismatching_def by code_simp
  moreover have "crash (run MAX_EVENTS 3 fatalReply (start 1)) = Some (EventValueMismatch 0 7)"
    unfolding fatalReply_def mismatching_def by code_simp
  moreover have "status (run MAX_EVENTS 3 fatalReply (start 1)) = [Sent 0]"
    unfolding fatalReply_def mismatching_def by code_simp
  moreover have "errLog (run MAX_EVENTS 3 fatalReply (start 1)) 0 =
     [ErrorAddingEvent ''timeout'', ValueMismatch 0 7]"
    unfolding fatalReply_def mismatching_def by code_simp
  moreover have "reserved (trace (run MAX_EVENTS 3 fatalReply (start 1))) = [0]"
    unfolding fatalReply_def mismatching_def by code_simp
  ultimately show ?thesis by blast
qed

text \<open>
  C8. Whenever a write of a value is sent, the entry of this value in \<^verbatim>\<open>insertTime\<close> was made
  earlier by the same worker, and the entry is there whatever the write comes to. The time
  of the entry is a reading of the clock in a step of that worker, and the entry holds this
  time: no later step writes the key again (the counter not wrapping, that is the ceiling
  plus the workers below \<open>2 ^ 64\<close>).
\<close>

theorem ledger_before_write:
  assumes "trace (run k nc sched (start n)) = pre @ Mutate i v p c # post"
  shows "(\<exists>t. Stamp i v t \<in> set pre \<and> (\<exists>e. (i, e) \<in> set sched \<and> now e = t) \<and>
            (unat k + n < 2 ^ 64 \<longrightarrow> insertTime (run k nc sched (start n)) (sint v) = Some t)) \<and>
         insertTime (run k nc sched (start n)) (sint v) \<noteq> None"
proof -
  let ?w = "run k nc sched (start n)"
  have inv: "ledgerInv ?w" by (rule ledgerInv_run [OF ledgerInv_start])
  then obtain t where t: "Stamp i v t \<in> set pre"
    unfolding ledgerInv_def using assms by blast
  then have tr: "Stamp i v t \<in> set (trace ?w)" using assms by simp
  then have ne: "insertTime ?w (sint v) \<noteq> None"
    using inv unfolding ledgerInv_def by blast
  have clock: "\<exists>e. (i, e) \<in> set sched \<and> now e = t"
    using stamp_from_schedule [OF tr] by (simp add: start_def)
  have "insertTime ?w (sint v) = Some t" if "unat k + n < 2 ^ 64"
    using stampInv_run [OF counterInv_start that stampInv_start, of nc sched] tr
    unfolding stampInv_def by blast
  then show ?thesis using t ne clock by blast
qed

theorem ledger_before_write_witness:
  "trace (run MAX_EVENTS 3 lostWrite (start 1)) =
     [Reserve 0 0, Stamp 0 0 17] @ Mutate 0 0 3 1 # [Reserve 0 1] \<and>
   unat MAX_EVENTS + 1 < 2 ^ 64 \<and>
   now failing = 17 \<and>
   insertTime (run MAX_EVENTS 3 lostWrite (start 1)) (sint (0 :: 64 word)) = Some 17 \<and>
   errLog (run MAX_EVENTS 3 lostWrite (start 1)) 0 =
     [ErrorAddingEvent ''timeout'', ErrorUnmarshaling ''unexpected end of JSON input'',
      FailedToAddEvent 0]"
proof -
  have tr: "trace (run MAX_EVENTS 3 lostWrite (start 1)) =
     [Reserve 0 0, Stamp 0 0 17] @ Mutate 0 0 3 1 # [Reserve 0 1]"
    unfolding lostWrite_def failing_def by code_simp
  have lg: "errLog (run MAX_EVENTS 3 lostWrite (start 1)) 0 =
     [ErrorAddingEvent ''timeout'', ErrorUnmarshaling ''unexpected end of JSON input'',
      FailedToAddEvent 0]"
    unfolding lostWrite_def failing_def by code_simp
  have b: "unat MAX_EVENTS + 1 < 2 ^ 64" by (simp add: MAX_EVENTS_def)
  from ledger_before_write [OF tr] obtain t
    where t: "Stamp 0 0 t \<in> set [Reserve 0 0, Stamp 0 0 17]"
      and "\<exists>e. (0, e) \<in> set lostWrite \<and> now e = t"
      and lt: "unat MAX_EVENTS + 1 < 2 ^ 64 \<longrightarrow>
        insertTime (run MAX_EVENTS 3 lostWrite (start 1)) (sint (0 :: 64 word)) = Some t"
    by blast
  from t have "t = 17" by simp
  then have "insertTime (run MAX_EVENTS 3 lostWrite (start 1)) (sint (0 :: 64 word)) = Some 17"
    using lt b by blast
  then show ?thesis using tr lg b by (simp add: failing_def)
qed

section \<open>Properties of the validation scheduler\<close>

lemma validateNode_reports:
  assumes "validateNode final i c st = Some (Inr st')"
  shows "length (reports st') = Suc (length (reports st))"
proof (rule validateNode_Inr [OF assms])
  fix h s
  assume ne: "countSeen s \<noteq> h \<Longrightarrow>
           st' = st\<lparr>reports := reports st @
             [CountMismatch \<lparr>f_aggregate = h, f_seen = countSeen s, f_outOfRange = outOfRange s,
                f_missed = int (falses (seen s)), f_max = max_v s\<rparr>]\<rparr>"
    and eq: "countSeen s = h \<Longrightarrow>
           i < length servers \<and>
           st' = \<lparr>missingCount = (missingCount st)(servers ! i \<mapsto> int (falses (seen s))),
                  reports = reports st @
                    [Validation (if outOfRange s > 0 \<or> int (falses (seen s)) > 0 then Failed else Passed)
                       \<lparr>f_aggregate = h, f_seen = countSeen s, f_outOfRange = outOfRange s,
                          f_missed = int (falses (seen s)), f_max = max_v s\<rparr>]\<rparr>"
  show ?thesis
  proof (cases "countSeen s = h")
    case True
    then show ?thesis using eq by simp
  next
    case False
    then show ?thesis using ne by simp
  qed
qed

lemma validateFrom_reports:
  "validateFrom i cs final st = Some (Inr st') \<Longrightarrow>
   length (reports st') = length (reports st) + length cs"
proof (induction cs arbitrary: i st)
  case Nil
  then show ?case by simp
next
  case (Cons c cs)
  from Cons.prems obtain st1 where n: "validateNode final i c st = Some (Inr st1)"
    and r: "validateFrom (Suc i) cs final st1 = Some (Inr st')"
    by (auto split: option.splits sum.splits)
  show ?case using Cons.IH [OF r] validateNode_reports [OF n] by simp
qed

lemma schedInv_new: "0 < unat iv \<Longrightarrow> schedInv k iv m (length (reports v)) (newScheduler iv v)"
  by (simp add: schedInv_def newScheduler_def word_less_nat_alt)

lemma schedInv_run:
  assumes "unat k + unat iv < 2 ^ 64"
    and "runValidationScheduler k iv reads s = Some (Inr s')"
    and "schedInv k iv m r0 s" and "\<not> returned s"
    and "\<forall>r \<in> set reads. length (snd r) = m"
  shows "schedInv k iv m r0 s'"
  using assms(2-)
proof (induction reads arbitrary: s)
  case Nil
  then show ?case by simp
next
  case (Cons r reads)
  obtain c clients where r: "r = (c, clients)" by (cases r)
  have m: "length clients = m" using Cons.prems(4) r by simp
  have rest: "\<forall>r \<in> set reads. length (snd r) = m" using Cons.prems(4) by simp
  show ?case
  proof (cases "k \<le> c")
    case True
    then have "s' = s\<lparr>currentCount := c, waiting := False, returned := True\<rparr>"
      using Cons.prems(1) r by simp
    then show ?thesis using Cons.prems(2) True by (simp add: schedInv_def)
  next
    case False
    show ?thesis
    proof (cases "c < nextValidationAt s")
      case True
      let ?s1 = "s\<lparr>currentCount := c, waiting := True\<rparr>"
      have run: "runValidationScheduler k iv reads ?s1 = Some (Inr s')"
        using Cons.prems(1) r False True by simp
      have "schedInv k iv m r0 ?s1"
        using Cons.prems(2,3) True by (simp add: schedInv_def)
      then show ?thesis using Cons.IH [OF run _ _ rest] Cons.prems(3) by simp
    next
      case ge: False
      from Cons.prems(1) r False ge obtain v where
        v: "validate clients False (results s) = Some (Inr v)"
        and run: "runValidationScheduler k iv reads
          (s\<lparr>currentCount := c, waiting := False, started := started s @ [c],
             results := v, nextValidationAt := nextValidationAt s + iv\<rparr>) = Some (Inr s')"
        by (auto split: option.splits sum.splits)
      let ?s1 = "s\<lparr>currentCount := c, waiting := False, started := started s @ [c],
             results := v, nextValidationAt := nextValidationAt s + iv\<rparr>"
      have nx: "unat (nextValidationAt s) = unat iv * Suc (length (started s))"
        using Cons.prems(2) by (simp add: schedInv_def)
      have le: "unat (nextValidationAt s) \<le> unat c" using ge by (simp add: word_less_nat_alt)
      have ck: "unat c < unat k" using False by (simp add: word_le_nat_alt)
      have "unat (nextValidationAt s) + unat iv < 2 ^ 64" using le ck assms(1) by linarith
      then have add: "unat (nextValidationAt s + iv) = unat (nextValidationAt s) + unat iv"
        by (simp add: unat_add_lem [THEN iffD1])
      have rep: "length (reports v) = length (reports (results s)) + m"
        using validateFrom_reports [of 0 clients False "results s" v] v m by (simp add: validate_def)
      have "schedInv k iv m r0 ?s1"
        unfolding schedInv_def
      proof (intro conjI allI impI)
        show "unat (nextValidationAt ?s1) = unat iv * Suc (length (started ?s1))"
          using add nx by simp
        show "unat iv * Suc j \<le> unat (started ?s1 ! j)" if "j < length (started ?s1)" for j
        proof (cases "j < length (started s)")
          case True
          then show ?thesis using Cons.prems(2) by (simp add: schedInv_def nth_append)
        next
          case False
          then have "j = length (started s)" using that by simp
          then show ?thesis using le nx by (simp add: nth_append)
        qed
        show "started ?s1 ! j < k" if "j < length (started ?s1)" for j
        proof (cases "j < length (started s)")
          case True
          then show ?thesis using Cons.prems(2) by (simp add: schedInv_def nth_append)
        next
          case False
          then have "j = length (started s)" using that by simp
          then show ?thesis using ck by (simp add: nth_append word_less_nat_alt)
        qed
        show "currentCount ?s1 < nextValidationAt ?s1" if "waiting ?s1"
          using that by simp
        show "k \<le> currentCount ?s1" if "returned ?s1"
          using that Cons.prems(3) by simp
        show "length (reports (results ?s1)) = r0 + m * length (started ?s1)"
          using rep Cons.prems(2) by (simp add: schedInv_def)
      qed
      then show ?thesis using Cons.IH [OF run _ _ rest] Cons.prems(3) by simp
    qed
  qed
qed


lemma scheduler_returns_at_ceiling:
  "runValidationScheduler k iv reads s = Some (Inr s') \<Longrightarrow> \<exists>r \<in> set reads. k \<le> fst r \<Longrightarrow>
   returned s'"
proof (induction reads arbitrary: s)
  case Nil
  then show ?case by simp
next
  case (Cons r reads)
  obtain c clients where r: "r = (c, clients)" by (cases r)
  show ?case
  proof (cases "k \<le> c")
    case True
    then show ?thesis using Cons.prems(1) r by auto
  next
    case False
    then have ex: "\<exists>r \<in> set reads. k \<le> fst r" using Cons.prems(2) r by auto
    show ?thesis
    proof (cases "c < nextValidationAt s")
      case True
      then show ?thesis using Cons.IH [OF _ ex] Cons.prems(1) r False by simp
    next
      case ge: False
      from Cons.prems(1) r False ge obtain v where
        "runValidationScheduler k iv reads
          (s\<lparr>currentCount := c, waiting := False, started := started s @ [c],
             results := v, nextValidationAt := nextValidationAt s + iv\<rparr>) = Some (Inr s')"
        by (auto split: option.splits sum.splits)
      then show ?thesis using Cons.IH [OF _ ex] by simp
    qed
  qed
qed

lemma map_result_Inr:
  assumes "map_option (map_sum id f) r = Some (Inr y)"
  shows "\<exists>s. r = Some (Inr s) \<and> f s = y"
proof (cases r)
  case None
  then show ?thesis using assms by simp
next
  case (Some a)
  then show ?thesis using assms by (cases a) auto
qed

lemma scheduler_refines:
  "runValidationScheduler k iv reads s = Some (Inr s') \<Longrightarrow>
   started s' = started s @ map fst (dueReads k iv (nextValidationAt s) reads) \<and>
   nonFinalPasses (map snd (dueReads k iv (nextValidationAt s) reads)) (results s) =
     Some (Inr (results s'))"
proof (induction reads arbitrary: s)
  case Nil
  then show ?case by simp
next
  case (Cons r reads)
  obtain c clients where r: "r = (c, clients)" by (cases r)
  show ?case
  proof (cases "k \<le> c")
    case True
    then show ?thesis using Cons.prems r by auto
  next
    case False
    show ?thesis
    proof (cases "c < nextValidationAt s")
      case True
      then have "runValidationScheduler k iv reads (s\<lparr>currentCount := c, waiting := True\<rparr>) =
          Some (Inr s')"
        using Cons.prems r False by simp
      from Cons.IH [OF this] show ?thesis using r False True by simp
    next
      case ge: False
      from Cons.prems r False ge obtain v where
        v: "validate clients False (results s) = Some (Inr v)"
        and run: "runValidationScheduler k iv reads
          (s\<lparr>currentCount := c, waiting := False, started := started s @ [c],
             results := v, nextValidationAt := nextValidationAt s + iv\<rparr>) = Some (Inr s')"
        by (auto split: option.splits sum.splits)
      from Cons.IH [OF run] show ?thesis
        using r False ge v by (simp add: validate_def)
    qed
  qed
qed

text \<open>
  C9, as the code has it. The inner loop reads the count again before every validation.
  A read below the ceiling that has reached the threshold starts one validation, not final,
  over every node, and moves the threshold up by the interval; so the validations are for
  the thresholds in their order, one each, and when the loop leaves by \<^verbatim>\<open>break\<close> every
  multiple of the interval up to the count just read has had its validation. A read at or
  above the ceiling makes the scheduler return at once, with no validation for the
  thresholds it had not come to. The validations started and what they leave behind are
  those of the description above: the reads that are due, and for each the validation of
  all nodes with the flag \<^verbatim>\<open>final\<close> false. Stated for the scheduler when it has not been
  ended by a validation, with the ceiling plus the interval below \<open>2 ^ 64\<close>.
\<close>

theorem scheduler_catches_up_below_ceiling:
  assumes "0 < unat interval" and "unat maxEvents + unat interval < 2 ^ 64"
    and "\<forall>r \<in> set reads. length (snd r) = m"
    and "runValidationScheduler maxEvents interval reads (newScheduler interval v) = Some (Inr s)"
  shows "unat (nextValidationAt s) = unat interval * Suc (length (started s)) \<and>
     (\<forall>j. j < length (started s) \<longrightarrow>
        unat interval * Suc j \<le> unat (started s ! j) \<and> started s ! j < maxEvents) \<and>
     length (reports (results s)) = length (reports v) + m * length (started s) \<and>
     (waiting s \<longrightarrow> unat (currentCount s) div unat interval \<le> length (started s)) \<and>
     (returned s \<longrightarrow> maxEvents \<le> currentCount s) \<and>
     ((\<exists>r \<in> set reads. maxEvents \<le> fst r) \<longrightarrow> returned s) \<and>
     started s = map fst (dueReads maxEvents interval interval reads) \<and>
     nonFinalPasses (map snd (dueReads maxEvents interval interval reads)) v =
       Some (Inr (results s))"
proof -
  have inv: "schedInv maxEvents interval m (length (reports v)) s"
    by (rule schedInv_run [OF assms(2) assms(4) schedInv_new [OF assms(1)] _ assms(3)])
      (simp add: newScheduler_def)
  have w: "unat (currentCount s) div unat interval \<le> length (started s)" if "waiting s"
  proof -
    have "unat (currentCount s) < unat interval * Suc (length (started s))"
      using inv that by (simp add: schedInv_def word_less_nat_alt)
    then have "unat (currentCount s) div unat interval < Suc (length (started s))"
      using assms(1) by (simp add: less_mult_imp_div_less mult.commute)
    then show ?thesis by simp
  qed
  have "started s = map fst (dueReads maxEvents interval interval reads) \<and>
     nonFinalPasses (map snd (dueReads maxEvents interval interval reads)) v =
       Some (Inr (results s))"
    using scheduler_refines [OF assms(4)] by (simp add: newScheduler_def)
  then show ?thesis
    using inv w scheduler_returns_at_ceiling [OF assms(4)]
    unfolding schedInv_def by blast
qed

theorem scheduler_catches_up_below_ceiling_witness:
  "0 < unat VALIDATION_INTERVAL \<and> unat MAX_EVENTS + unat VALIDATION_INTERVAL < 2 ^ 64 \<and>
   map_option (map_sum id started)
     (runValidationScheduler MAX_EVENTS VALIDATION_INTERVAL catchUp
        (newScheduler VALIDATION_INTERVAL initialV)) = Some (Inr [7600, 7600, 7700]) \<and>
   map_option (map_sum id nextValidationAt)
     (runValidationScheduler MAX_EVENTS VALIDATION_INTERVAL catchUp
        (newScheduler VALIDATION_INTERVAL initialV)) = Some (Inr 10000) \<and>
   map_option (map_sum id waiting)
     (runValidationScheduler MAX_EVENTS VALIDATION_INTERVAL catchUp
        (newScheduler VALIDATION_INTERVAL initialV)) = Some (Inr True) \<and>
   map_option (map_sum id (\<lambda>s. length (reports (results s))))
     (runValidationScheduler MAX_EVENTS VALIDATION_INTERVAL catchUp
        (newScheduler VALIDATION_INTERVAL initialV)) = Some (Inr 6) \<and>
   map_option (map_sum id (\<lambda>s. reports (results s)))
     (runValidationScheduler MAX_EVENTS VALIDATION_INTERVAL catchUp
        (newScheduler VALIDATION_INTERVAL initialV)) =
     Some (Inr [Validation Passed
                  \<lparr>f_aggregate = 3, f_seen = 3, f_outOfRange = 0, f_missed = 0, f_max = 2\<rparr>,
                CountMismatch
                  \<lparr>f_aggregate = 2, f_seen = 1, f_outOfRange = 0, f_missed = 1, f_max = 0\<rparr>,
                Validation Passed
                  \<lparr>f_aggregate = 3, f_seen = 3, f_outOfRange = 0, f_missed = 0, f_max = 2\<rparr>,
                CountMismatch
                  \<lparr>f_aggregate = 2, f_seen = 1, f_outOfRange = 0, f_missed = 1, f_max = 0\<rparr>,
                Validation Passed
                  \<lparr>f_aggregate = 3, f_seen = 3, f_outOfRange = 0, f_missed = 0, f_max = 2\<rparr>,
                CountMismatch
                  \<lparr>f_aggregate = 2, f_seen = 1, f_outOfRange = 0, f_missed = 1, f_max = 0\<rparr>])"
proof -
  have i: "0 < unat VALIDATION_INTERVAL" by (simp add: VALIDATION_INTERVAL_def)
  have b: "unat MAX_EVENTS + unat VALIDATION_INTERVAL < 2 ^ 64"
    by (simp add: MAX_EVENTS_def VALIDATION_INTERVAL_def)
  have m: "\<forall>r \<in> set catchUp. length (snd r) = 2"
    by (simp add: catchUp_def twoNodes_def)
  obtain s where run: "runValidationScheduler MAX_EVENTS VALIDATION_INTERVAL catchUp
        (newScheduler VALIDATION_INTERVAL initialV) = Some (Inr s)"
    and st: "started s = [7600, 7600, 7700]" and wt: "waiting s"
  proof -
    have "map_option (map_sum id (\<lambda>s. (started s, waiting s)))
      (runValidationScheduler MAX_EVENTS VALIDATION_INTERVAL catchUp
        (newScheduler VALIDATION_INTERVAL initialV)) = Some (Inr ([7600, 7600, 7700], True))"
      unfolding catchUp_def twoNodes_def by code_simp
    from map_result_Inr [OF this] show thesis using that by auto
  qed
  note inst = scheduler_catches_up_below_ceiling [OF i b m run]
  have nx: "unat (nextValidationAt s) = unat (10000 :: 64 word)"
    using inst [THEN conjunct1] by (simp add: st VALIDATION_INTERVAL_def)
  then have "nextValidationAt s = 10000" by (rule unsigned_word_eqI)
  moreover have "length (reports (results s)) = 6"
    using inst [THEN conjunct2, THEN conjunct2, THEN conjunct1] by (simp add: st initialV_def)
  moreover have "reports (results s) =
      [Validation Passed
         \<lparr>f_aggregate = 3, f_seen = 3, f_outOfRange = 0, f_missed = 0, f_max = 2\<rparr>,
       CountMismatch
         \<lparr>f_aggregate = 2, f_seen = 1, f_outOfRange = 0, f_missed = 1, f_max = 0\<rparr>,
       Validation Passed
         \<lparr>f_aggregate = 3, f_seen = 3, f_outOfRange = 0, f_missed = 0, f_max = 2\<rparr>,
       CountMismatch
         \<lparr>f_aggregate = 2, f_seen = 1, f_outOfRange = 0, f_missed = 1, f_max = 0\<rparr>,
       Validation Passed
         \<lparr>f_aggregate = 3, f_seen = 3, f_outOfRange = 0, f_missed = 0, f_max = 2\<rparr>,
       CountMismatch
         \<lparr>f_aggregate = 2, f_seen = 1, f_outOfRange = 0, f_missed = 1, f_max = 0\<rparr>]"
  proof -
    have "map_option (map_sum id reports)
        (nonFinalPasses (map snd (dueReads MAX_EVENTS VALIDATION_INTERVAL VALIDATION_INTERVAL catchUp))
           initialV) =
      Some (Inr [Validation Passed
         \<lparr>f_aggregate = 3, f_seen = 3, f_outOfRange = 0, f_missed = 0, f_max = 2\<rparr>,
       CountMismatch
         \<lparr>f_aggregate = 2, f_seen = 1, f_outOfRange = 0, f_missed = 1, f_max = 0\<rparr>,
       Validation Passed
         \<lparr>f_aggregate = 3, f_seen = 3, f_outOfRange = 0, f_missed = 0, f_max = 2\<rparr>,
       CountMismatch
         \<lparr>f_aggregate = 2, f_seen = 1, f_outOfRange = 0, f_missed = 1, f_max = 0\<rparr>,
       Validation Passed
         \<lparr>f_aggregate = 3, f_seen = 3, f_outOfRange = 0, f_missed = 0, f_max = 2\<rparr>,
       CountMismatch
         \<lparr>f_aggregate = 2, f_seen = 1, f_outOfRange = 0, f_missed = 1, f_max = 0\<rparr>])"
      unfolding catchUp_def twoNodes_def by code_simp
    then show ?thesis
      using inst [THEN conjunct2, THEN conjunct2, THEN conjunct2, THEN conjunct2, THEN conjunct2,
          THEN conjunct2, THEN conjunct2]
      by simp
  qed
  ultimately show ?thesis using i b run st wt by simp
qed

text \<open>
  C9 as the specification states it fails: the scheduler reads 5000, which has crossed the
  two thresholds 2500 and 5000, starts one validation, reads again and finds 100000; it
  returns with the threshold 5000, which is below the ceiling, never validated.
\<close>

theorem ceiling_read_skips_thresholds:
  "map_option (map_sum id started)
     (runValidationScheduler MAX_EVENTS VALIDATION_INTERVAL ceilingDuringCatchUp
        (newScheduler VALIDATION_INTERVAL initialV)) = Some (Inr [5000]) \<and>
   map_option (map_sum id returned)
     (runValidationScheduler MAX_EVENTS VALIDATION_INTERVAL ceilingDuringCatchUp
        (newScheduler VALIDATION_INTERVAL initialV)) = Some (Inr True) \<and>
   map_option (map_sum id nextValidationAt)
     (runValidationScheduler MAX_EVENTS VALIDATION_INTERVAL ceilingDuringCatchUp
        (newScheduler VALIDATION_INTERVAL initialV)) = Some (Inr 5000) \<and>
   map_option (map_sum id (\<lambda>s. reports (results s)))
     (runValidationScheduler MAX_EVENTS VALIDATION_INTERVAL ceilingDuringCatchUp
        (newScheduler VALIDATION_INTERVAL initialV)) =
     Some (Inr [Validation Passed
                  \<lparr>f_aggregate = 3, f_seen = 3, f_outOfRange = 0, f_missed = 0, f_max = 2\<rparr>,
                CountMismatch
                  \<lparr>f_aggregate = 2, f_seen = 1, f_outOfRange = 0, f_missed = 1, f_max = 0\<rparr>]) \<and>
   2 * VALIDATION_INTERVAL \<le> 5000 \<and> (5000 :: 64 word) < MAX_EVENTS"
proof -
  have rp: "map_option (map_sum id (\<lambda>s. reports (results s)))
     (runValidationScheduler MAX_EVENTS VALIDATION_INTERVAL ceilingDuringCatchUp
        (newScheduler VALIDATION_INTERVAL initialV)) =
     Some (Inr [Validation Passed
                  \<lparr>f_aggregate = 3, f_seen = 3, f_outOfRange = 0, f_missed = 0, f_max = 2\<rparr>,
                CountMismatch
                  \<lparr>f_aggregate = 2, f_seen = 1, f_outOfRange = 0, f_missed = 1, f_max = 0\<rparr>])"
    unfolding ceilingDuringCatchUp_def twoNodes_def by code_simp
  have "map_option (map_sum id (\<lambda>s. (started s, returned s, nextValidationAt s)))
     (runValidationScheduler MAX_EVENTS VALIDATION_INTERVAL ceilingDuringCatchUp
        (newScheduler VALIDATION_INTERVAL initialV)) = Some (Inr ([5000], True, 5000))"
    unfolding ceilingDuringCatchUp_def twoNodes_def by code_simp
  from map_result_Inr [OF this] rp show ?thesis
    by (auto simp: MAX_EVENTS_def VALIDATION_INTERVAL_def)
qed

end
